theory Spec2Isabelle
  imports Main
begin

section \<open>Values exchanged with the external collaborators\<close>

text \<open>
  A call of an external collaborator (the fetch client, the content extractor, the
  language model, the screenshot renderer) either returns a value or raises a Python
  \<^verbatim>\<open>Exception\<close> whose \<^verbatim>\<open>str(e)\<close> is the carried message.
\<close>

datatype 'a outcome = Returns 'a | Raises string

text \<open>
  The dictionary \<^verbatim>\<open>{'url': ..., 'result': ..., 'screenshot': ...}\<close> that
  \<^verbatim>\<open>_process_single_url\<close> returns and that the cache stores. Strings are byte
  lists: the non-ASCII characters of the source's messages are their UTF-8 bytes.
\<close>

record result_data =
  url :: string
  result :: string
  screenshot :: "string option"

text \<open>The dictionary returned by \<^verbatim>\<open>analyzer.extract_content\<close>.\<close>

record content_data =
  title :: string
  content :: string
  content_url :: string

section \<open>The cache manager\<close>

text \<open>
  The class \<^verbatim>\<open>CacheManager\<close> is imported from the module \<^verbatim>\<open>cache\<close>, which
  is not among the available sources; \<^verbatim>\<open>main.py\<close> only constructs it and calls
  \<^verbatim>\<open>get\<close>, \<^verbatim>\<open>set\<close>, \<^verbatim>\<open>clear\<close> and \<^verbatim>\<open>get_stats\<close>. Its state and
  operations follow the specification's section on the expiring cache. Time is an integer
  reading of the clock, in the unit of the expiry time (minutes).
\<close>

text \<open>Modelled from the spec: the entry of the missing class \<^verbatim>\<open>CacheManager\<close>, a
  value with its creation time and its expiry time (the key is kept beside the entry).\<close>

record CacheEntry =
  entry_value :: result_data
  created_at :: int
  expires_at :: int

text \<open>Modelled from the spec: the state of the missing class \<^verbatim>\<open>CacheManager\<close>, its
  capacity, its expiry window and its entries, kept as an association list in insertion
  order, oldest first.\<close>

record CacheManager =
  max_size :: int
  expire_time :: int
  entries :: "(string \<times> CacheEntry) list"

text \<open>Modelled from the spec: the constructor of the missing class \<^verbatim>\<open>CacheManager\<close>
  (created once with a fixed capacity and expiry window, initially without entries).\<close>

definition CacheManager_init :: "int \<Rightarrow> int \<Rightarrow> CacheManager" where
  "CacheManager_init ms et = \<lparr>max_size = ms, expire_time = et, entries = []\<rparr>"

text \<open>Modelled from the spec: \<^verbatim>\<open>CacheManager.get\<close>, missing from the sources. It
  returns the stored value only if \<open>now < expires_at\<close>; an expired entry reads as absent.
  The lookup does not delete anything.\<close>

definition cache_get :: "CacheManager \<Rightarrow> string \<Rightarrow> int \<Rightarrow> result_data option" where
  "cache_get c k now =
     (case map_of (entries c) k of
        None \<Rightarrow> None
      | Some e \<Rightarrow> if now < expires_at e then Some (entry_value e) else None)"

text \<open>Modelled from the spec: the entry that the missing \<^verbatim>\<open>CacheManager.set\<close>
  stores, created now and expiring one expiry window later.\<close>

definition fresh_entry :: "CacheManager \<Rightarrow> result_data \<Rightarrow> int \<Rightarrow> CacheEntry" where
  "fresh_entry c v now =
     \<lparr>entry_value = v, created_at = now, expires_at = now + expire_time c\<rparr>"

text \<open>Modelled from the spec: \<^verbatim>\<open>CacheManager.set\<close>, missing from the sources. It
  inserts or overwrites. If the key is new and the number of entries equals the capacity,
  the single oldest-inserted entry is evicted before the insertion. Overwriting an
  existing key refreshes \<open>created_at\<close> and \<open>expires_at\<close> in place and evicts nothing.\<close>

definition cache_set :: "CacheManager \<Rightarrow> string \<Rightarrow> result_data \<Rightarrow> int \<Rightarrow> CacheManager" where
  "cache_set c k v now =
     (if k \<in> set (map fst (entries c))
      then c\<lparr>entries := map (\<lambda>(k', e'). if k' = k then (k', fresh_entry c v now) else (k', e'))
                            (entries c)\<rparr>
      else c\<lparr>entries := (if int (length (entries c)) = max_size c
                          then tl (entries c) else entries c)
                         @ [(k, fresh_entry c v now)]\<rparr>)"

text \<open>Modelled from the spec: \<^verbatim>\<open>CacheManager.clear\<close>, missing from the sources. It
  empties all entries unconditionally.\<close>

definition cache_clear :: "CacheManager \<Rightarrow> CacheManager" where
  "cache_clear c = c\<lparr>entries := []\<rparr>"

text \<open>A sequence of mutating cache operations, applied from left to right.\<close>

datatype cache_op = Set string result_data int | Clear

fun apply_op :: "CacheManager \<Rightarrow> cache_op \<Rightarrow> CacheManager" where
  "apply_op c (Set k v now) = cache_set c k v now"
| "apply_op c Clear = cache_clear c"

definition apply_ops :: "CacheManager \<Rightarrow> cache_op list \<Rightarrow> CacheManager" where
  "apply_ops c ops = foldl apply_op c ops"

text \<open>Every cached value was stored under its own URL.\<close>

definition cache_wf :: "CacheManager \<Rightarrow> bool" where
  "cache_wf c = list_all (\<lambda>(k, e). url (entry_value e) = k) (entries c)"

section \<open>The plugin: configuration and state\<close>

text \<open>
  The part of the configuration read by the cache set-up of
  \<^verbatim>\<open>WebAnalyzerPlugin.__init__\<close>. A field is \<open>None\<close> when the key is missing from the
  dictionary, so that \<^verbatim>\<open>dict.get(key, default)\<close> yields the default. Python integers are
  unbounded. The truth value of \<^verbatim>\<open>bool(...)\<close> is taken as already computed.
\<close>

record cache_settings =
  cfg_enable_cache :: "bool option"
  cfg_cache_expire_time :: "int option"
  cfg_max_cache_size :: "int option"

record config =
  cfg_cache_settings :: "cache_settings option"
  cfg_enable_translation :: bool
  cfg_enable_screenshot :: bool

definition dict_get :: "'a option \<Rightarrow> 'a \<Rightarrow> 'a" where
  "dict_get v d = (case v of None \<Rightarrow> d | Some x \<Rightarrow> x)"

definition empty_settings :: cache_settings where
  "empty_settings =
     \<lparr>cfg_enable_cache = None, cfg_cache_expire_time = None, cfg_max_cache_size = None\<rparr>"

text \<open>The attributes of the plugin object that the batch processor reads or writes.\<close>

record WebAnalyzerPlugin =
  enable_translation :: bool
  enable_screenshot :: bool
  enable_cache :: bool
  cache_expire_time :: int
  max_cache_size :: int
  cache_manager :: CacheManager
  processing_urls :: "string set"

text \<open>\<^verbatim>\<open>__init__\<close>, lines 164 to 176 and 211 of \<^verbatim>\<open>main.py\<close>.\<close>

definition WebAnalyzerPlugin_init :: "config \<Rightarrow> WebAnalyzerPlugin" where
  "WebAnalyzerPlugin_init cfg =
     (let cs = dict_get (cfg_cache_settings cfg) empty_settings;
          ec = dict_get (cfg_enable_cache cs) True;
          et = max 5 (min 10080 (dict_get (cfg_cache_expire_time cs) 1440));
          ms = max 10 (min 1000 (dict_get (cfg_max_cache_size cs) 100))
      in \<lparr>enable_translation = cfg_enable_translation cfg,
          enable_screenshot = cfg_enable_screenshot cfg,
          enable_cache = ec,
          cache_expire_time = et,
          max_cache_size = ms,
          cache_manager = CacheManager_init ms et,
          processing_urls = {}\<rparr>)"

text \<open>\<^verbatim>\<open>_check_cache\<close> and \<^verbatim>\<open>_update_cache\<close>; \<open>now\<close> is the clock reading at the
  call.\<close>

definition check_cache :: "WebAnalyzerPlugin \<Rightarrow> string \<Rightarrow> int \<Rightarrow> result_data option" where
  "check_cache st u now =
     (if \<not> enable_cache st then None else cache_get (cache_manager st) u now)"

definition update_cache ::
  "WebAnalyzerPlugin \<Rightarrow> string \<Rightarrow> result_data \<Rightarrow> int \<Rightarrow> WebAnalyzerPlugin" where
  "update_cache st u r now =
     (if \<not> enable_cache st then st
      else st\<lparr>cache_manager := cache_set (cache_manager st) u r now\<rparr>)"

section \<open>The per-URL pipeline\<close>

text \<open>
  The messages of the error-shaped results, as UTF-8 bytes. Each of the four messages
  starts with the cross mark U+274C followed by a space, then a Chinese phrase:
  "cannot fetch the page content: ", "cannot parse the page content: ",
  "error while processing the URL: " and "error during the LLM analysis: ".
\<close>

definition cross_mark :: string where
  "cross_mark = [CHR 0xE2, CHR 0x9D, CHR 0x8C]"

definition cannot_fetch :: string where
  "cannot_fetch = cross_mark @ [CHR 0x20, CHR 0xE6, CHR 0x97, CHR 0xA0, CHR 0xE6, CHR 0xB3,
     CHR 0x95, CHR 0xE6, CHR 0x8A, CHR 0x93, CHR 0xE5, CHR 0x8F, CHR 0x96, CHR 0xE7, CHR 0xBD,
     CHR 0x91, CHR 0xE9, CHR 0xA1, CHR 0xB5, CHR 0xE5, CHR 0x86, CHR 0x85, CHR 0xE5, CHR 0xAE,
     CHR 0xB9, CHR 0x3A, CHR 0x20]"

definition cannot_parse :: string where
  "cannot_parse = cross_mark @ [CHR 0x20, CHR 0xE6, CHR 0x97, CHR 0xA0, CHR 0xE6, CHR 0xB3,
     CHR 0x95, CHR 0xE8, CHR 0xA7, CHR 0xA3, CHR 0xE6, CHR 0x9E, CHR 0x90, CHR 0xE7, CHR 0xBD,
     CHR 0x91, CHR 0xE9, CHR 0xA1, CHR 0xB5, CHR 0xE5, CHR 0x86, CHR 0x85, CHR 0xE5, CHR 0xAE,
     CHR 0xB9, CHR 0x3A, CHR 0x20]"

definition url_error :: string where
  "url_error = cross_mark @ [CHR 0x20, CHR 0xE5, CHR 0xA4, CHR 0x84, CHR 0xE7, CHR 0x90,
     CHR 0x86, CHR 0x55, CHR 0x52, CHR 0x4C, CHR 0xE6, CHR 0x97, CHR 0xB6, CHR 0xE5, CHR 0x87,
     CHR 0xBA, CHR 0xE9, CHR 0x94, CHR 0x99, CHR 0x3A, CHR 0x20]"

definition error_info :: string where
  "error_info = [CHR 0x0A, CHR 0xE9, CHR 0x94, CHR 0x99, CHR 0xE8, CHR 0xAF, CHR 0xAF,
     CHR 0xE4, CHR 0xBF, CHR 0xA1, CHR 0xE6, CHR 0x81, CHR 0xAF, CHR 0x3A, CHR 0x20]"

definition llm_error :: string where
  "llm_error = cross_mark @ [CHR 0x20, CHR 0x4C, CHR 0x4C, CHR 0x4D, CHR 0xE5, CHR 0x88,
     CHR 0x86, CHR 0xE6, CHR 0x9E, CHR 0x90, CHR 0xE8, CHR 0xBF, CHR 0x87, CHR 0xE7, CHR 0xA8,
     CHR 0x8B, CHR 0xE4, CHR 0xB8, CHR 0xAD, CHR 0xE5, CHR 0x87, CHR 0xBA, CHR 0xE7, CHR 0x8E,
     CHR 0xB0, CHR 0xE9, CHR 0x94, CHR 0x99, CHR 0xE8, CHR 0xAF, CHR 0xAF, CHR 0x3A, CHR 0x20]"

definition specific_header :: string where
  "specific_header = [CHR 0x0A, CHR 0x0A, CHR 0x2A, CHR 0x2A, CHR 0xE7, CHR 0x89, CHR 0xB9,
     CHR 0xE5, CHR 0xAE, CHR 0x9A, CHR 0xE5, CHR 0x86, CHR 0x85, CHR 0xE5, CHR 0xAE, CHR 0xB9,
     CHR 0xE6, CHR 0x8F, CHR 0x90, CHR 0xE5, CHR 0x8F, CHR 0x96, CHR 0x2A, CHR 0x2A, CHR 0x0A]"

text \<open>A text carries the error marker when it starts with the cross mark.\<close>

definition error_marked :: "string \<Rightarrow> bool" where
  "error_marked t = (take 3 t = cross_mark)"

text \<open>
  What the external collaborators do for one URL. The clock readings are those seen by
  the cache at the lookup and at the write-through. \<open>fetch_webpage\<close> returns the HTML
  (\<open>None\<close> or the empty string are falsy), \<open>extract_content\<close> the structured content
  (\<open>None\<close> for a falsy value). \<open>translate_body\<close> and \<open>llm_body\<close> are the bodies of the
  \<^verbatim>\<open>try\<close> blocks of \<^verbatim>\<open>_translate_content\<close> and \<^verbatim>\<open>analyze_with_llm\<close>
  (provider lookup, prompt, model call, formatting or the non-LLM fallback), as functions
  of the text they are given; \<open>translate_body\<close> returns \<open>None\<close> where the source falls
  back to the untranslated content. \<open>specific_content\<close> is the block of extracted
  images, links, code and meta data as formatted by lines 507 to 531 (\<open>None\<close> when
  \<^verbatim>\<open>_extract_specific_content\<close> returns the empty dictionary).
\<close>

record behaviour =
  check_time :: int
  fetch_webpage :: "string option outcome"
  extract_content :: "content_data option outcome"
  translate_body :: "string \<Rightarrow> string option outcome"
  llm_body :: "content_data \<Rightarrow> string outcome"
  specific_content :: "string option outcome"
  capture_screenshot :: "string option outcome"
  update_time :: int

text \<open>\<^verbatim>\<open>_translate_content\<close>: every exception is caught and the content returned.\<close>

definition translate_content :: "WebAnalyzerPlugin \<Rightarrow> behaviour \<Rightarrow> string \<Rightarrow> string" where
  "translate_content st b c =
     (if \<not> enable_translation st then c
      else case translate_body b c of
             Returns (Some t) \<Rightarrow> t
           | Returns None \<Rightarrow> c
           | Raises e \<Rightarrow> c)"

text \<open>\<^verbatim>\<open>analyze_with_llm\<close>: the handler of lines 731 to 734 turns every exception of
  the body into a returned error text.\<close>

definition analyze_with_llm :: "behaviour \<Rightarrow> content_data \<Rightarrow> string" where
  "analyze_with_llm b cd =
     (case llm_body b cd of
        Returns t \<Rightarrow> t
      | Raises e \<Rightarrow> llm_error @ e)"

definition falsy :: "string option \<Rightarrow> bool" where
  "falsy h = (h = None \<or> h = Some [])"

text \<open>
  The \<^verbatim>\<open>try\<close> block of \<^verbatim>\<open>_process_single_url\<close> from the return of
  \<^verbatim>\<open>analyzer.fetch_webpage\<close> on (lines 472 to 559). \<open>Raises\<close> is an exception that
  reaches the handler of line 560.
\<close>

definition after_fetch ::
  "WebAnalyzerPlugin \<Rightarrow> behaviour \<Rightarrow> string \<Rightarrow> (WebAnalyzerPlugin \<times> result_data) outcome" where
  "after_fetch st b u =
     (case fetch_webpage b of
        Raises e \<Rightarrow> Raises e
      | Returns html \<Rightarrow>
          if falsy html
          then Returns (st, \<lparr>url = u, result = cannot_fetch @ u, screenshot = None\<rparr>)
          else (case extract_content b of
             Raises e \<Rightarrow> Raises e
           | Returns None \<Rightarrow>
               Returns (st, \<lparr>url = u, result = cannot_parse @ u, screenshot = None\<rparr>)
           | Returns (Some cd) \<Rightarrow>
              (let analysis_result =
                     (if enable_translation st
                      then analyze_with_llm b (cd\<lparr>content := translate_content st b (content cd)\<rparr>)
                      else analyze_with_llm b cd)
               in case specific_content b of
                 Raises e \<Rightarrow> Raises e
               | Returns sp \<Rightarrow>
                  (let analysis_result' =
                         (case sp of None \<Rightarrow> analysis_result
                          | Some s \<Rightarrow> analysis_result @ specific_header @ s)
                   in case (if enable_screenshot st then capture_screenshot b else Returns None) of
                     Raises e \<Rightarrow> Raises e
                   | Returns shot \<Rightarrow>
                      (let result_data = \<lparr>url = u, result = analysis_result', screenshot = shot\<rparr>
                       in Returns (update_cache st u result_data (update_time b), result_data))))))"

text \<open>The handler of lines 560 to 567.\<close>

definition except_result :: "string \<Rightarrow> string \<Rightarrow> result_data" where
  "except_result u e = \<lparr>url = u, result = url_error @ u @ error_info @ e, screenshot = None\<rparr>"

definition resume_task ::
  "WebAnalyzerPlugin \<Rightarrow> behaviour \<Rightarrow> string \<Rightarrow> WebAnalyzerPlugin \<times> result_data" where
  "resume_task st b u =
     (case after_fetch st b u of
        Returns (st', r) \<Rightarrow> (st', r)
      | Raises e \<Rightarrow> (st, except_result u e))"

text \<open>\<^verbatim>\<open>_process_single_url\<close> run without interruption: the new plugin state, the
  result and whether \<^verbatim>\<open>fetch_webpage\<close> was called.\<close>

definition process_single_url ::
  "WebAnalyzerPlugin \<Rightarrow> behaviour \<Rightarrow> string \<Rightarrow> WebAnalyzerPlugin \<times> result_data \<times> bool" where
  "process_single_url st b u =
     (case check_cache st u (check_time b) of
        Some cached_result \<Rightarrow> (st, cached_result, False)
      | None \<Rightarrow> (let (st', r) = resume_task st b u in (st', r, True)))"

section \<open>Concurrent processing of a batch\<close>

text \<open>
  \<^verbatim>\<open>asyncio.gather\<close> runs the per-URL coroutines as cooperatively scheduled tasks
  and returns their results in the order of the tasks it was given. A task touches the
  shared plugin state in two atomic steps: from its start to the call of
  \<^verbatim>\<open>fetch_webpage\<close> (the cache lookup), and from the return of that call to its end
  (the cache write-through); the suspension points in between only involve the external
  collaborators. A schedule is a list of task indices: each occurrence lets that task
  take its next step. Indices out of range and finished tasks are skipped.
\<close>

datatype task = NotStarted | Fetching | Done result_data

record gather_state =
  g_plugin :: WebAnalyzerPlugin
  g_tasks :: "(string \<times> task) list"
  g_fetched :: "string list"

definition gather_init :: "WebAnalyzerPlugin \<Rightarrow> string list \<Rightarrow> gather_state" where
  "gather_init st us =
     \<lparr>g_plugin = st, g_tasks = map (\<lambda>u. (u, NotStarted)) us, g_fetched = []\<rparr>"

definition step_task :: "(string \<Rightarrow> behaviour) \<Rightarrow> gather_state \<Rightarrow> nat \<Rightarrow> gather_state" where
  "step_task beh g i =
     (if i < length (g_tasks g)
      then (case g_tasks g ! i of
              (u, NotStarted) \<Rightarrow>
                (case check_cache (g_plugin g) u (check_time (beh u)) of
                   Some cached_result \<Rightarrow> g\<lparr>g_tasks := (g_tasks g)[i := (u, Done cached_result)]\<rparr>
                 | None \<Rightarrow> g\<lparr>g_tasks := (g_tasks g)[i := (u, Fetching)],
                              g_fetched := g_fetched g @ [u]\<rparr>)
            | (u, Fetching) \<Rightarrow>
                (let (st', r) = resume_task (g_plugin g) (beh u) u
                 in g\<lparr>g_plugin := st', g_tasks := (g_tasks g)[i := (u, Done r)]\<rparr>)
            | (u, Done r) \<Rightarrow> g)
      else g)"

definition run_steps :: "(string \<Rightarrow> behaviour) \<Rightarrow> gather_state \<Rightarrow> nat list \<Rightarrow> gather_state" where
  "run_steps beh g sched = foldl (step_task beh) g sched"

text \<open>
  The join: after the given schedule, the tasks that are not finished yet are run to
  their end, so that every interleaving of the tasks' steps is some schedule.
\<close>

definition gather ::
  "(string \<Rightarrow> behaviour) \<Rightarrow> nat list \<Rightarrow> WebAnalyzerPlugin \<Rightarrow> string list \<Rightarrow> gather_state" where
  "gather beh sched st us =
     run_steps beh (gather_init st us) (sched @ [0..<length us] @ [0..<length us])"

fun task_result :: "string \<times> task \<Rightarrow> result_data option" where
  "task_result (u, Done r) = Some r"
| "task_result (u, NotStarted) = None"
| "task_result (u, Fetching) = None"

definition gather_results :: "gather_state \<Rightarrow> result_data list" where
  "gather_results g = List.map_filter task_result (g_tasks g)"

section \<open>The batch processor\<close>

text \<open>
  What happens around the tasks of one batch: the per-URL behaviours, the schedule of the
  tasks, whether creating and entering the \<^verbatim>\<open>WebAnalyzer\<close> context raises, whether
  the batch is cancelled while it waits in \<^verbatim>\<open>gather\<close> (after that many steps of the
  schedule), whether leaving the context raises, and whether
  \<^verbatim>\<open>_send_analysis_result\<close> lets an exception escape.
\<close>

record environment =
  behaviour_of :: "string \<Rightarrow> behaviour"
  schedule :: "nat list"
  acquire :: "unit outcome"
  cancel_after :: "nat option"
  release_client :: "unit outcome"
  send :: "unit outcome"

datatype exit_status = Completed | Propagated string

text \<open>
  The observable outcome of \<^verbatim>\<open>_batch_process_urls\<close>: the plugin state it leaves, the
  list \<open>analysis_results\<close> handed to \<^verbatim>\<open>_send_analysis_result\<close> (empty if that call is
  not reached), the URLs for which \<^verbatim>\<open>fetch_webpage\<close> was called, in call order, the
  number of \<^verbatim>\<open>WebAnalyzer\<close> contexts entered, and how the generator ended.
\<close>

record batch_outcome =
  final :: WebAnalyzerPlugin
  analysis_results :: "result_data list"
  fetched :: "string list"
  clients_acquired :: nat
  status :: exit_status

text \<open>The loop of lines 586 to 593, on the pair of \<open>filtered_urls\<close> and
  \<open>processing_urls\<close>.\<close>

fun admit_loop :: "string list \<Rightarrow> string list \<times> string set \<Rightarrow> string list \<times> string set" where
  "admit_loop [] (f, p) = (f, p)"
| "admit_loop (u # us) (f, p) =
     (if u \<notin> p then admit_loop us (f @ [u], insert u p) else admit_loop us (f, p))"

definition filtered_urls :: "WebAnalyzerPlugin \<Rightarrow> string list \<Rightarrow> string list" where
  "filtered_urls st urls = fst (admit_loop urls ([], processing_urls st))"

text \<open>The loop of the \<^verbatim>\<open>finally\<close> clause, lines 614 to 616.\<close>

fun release_loop :: "string list \<Rightarrow> string set \<Rightarrow> string set" where
  "release_loop [] p = p"
| "release_loop (u # us) p = release_loop us (if u \<in> p then p - {u} else p)"

text \<open>The \<^verbatim>\<open>try\<close> block, lines 600 to 611.\<close>

definition try_block :: "WebAnalyzerPlugin \<Rightarrow> environment \<Rightarrow> string list \<Rightarrow> batch_outcome" where
  "try_block st env us =
     (case acquire env of
        Raises e \<Rightarrow>
          \<lparr>final = st, analysis_results = [], fetched = [], clients_acquired = 0,
           status = Propagated e\<rparr>
      | Returns _ \<Rightarrow>
         (case cancel_after env of
            Some n \<Rightarrow>
              (let g = run_steps (behaviour_of env) (gather_init st us) (take n (schedule env))
               in \<lparr>final = g_plugin g, analysis_results = [], fetched = g_fetched g,
                   clients_acquired = 1, status = Propagated ''CancelledError''\<rparr>)
          | None \<Rightarrow>
              (let g = gather (behaviour_of env) (schedule env) st us
               in case release_client env of
                    Raises e \<Rightarrow>
                      \<lparr>final = g_plugin g, analysis_results = [], fetched = g_fetched g,
                       clients_acquired = 1, status = Propagated e\<rparr>
                  | Returns _ \<Rightarrow>
                      \<lparr>final = g_plugin g, analysis_results = gather_results g,
                       fetched = g_fetched g, clients_acquired = 1,
                       status = (case send env of Returns _ \<Rightarrow> Completed
                                 | Raises e \<Rightarrow> Propagated e)\<rparr>)))"

text \<open>\<^verbatim>\<open>_batch_process_urls\<close>, lines 582 to 616.\<close>

definition batch_process_urls ::
  "WebAnalyzerPlugin \<Rightarrow> environment \<Rightarrow> string list \<Rightarrow> batch_outcome" where
  "batch_process_urls st env urls =
     (let (filtered, p) = admit_loop urls ([], processing_urls st);
          st1 = st\<lparr>processing_urls := p\<rparr>
      in if filtered = []
         then \<lparr>final = st1, analysis_results = [], fetched = [], clients_acquired = 0,
               status = Completed\<rparr>
         else (let out = try_block st1 env filtered
               in out\<lparr>final := (final out)\<lparr>processing_urls :=
                          release_loop filtered (processing_urls (final out))\<rparr>\<rparr>))"

text \<open>How far a task has come: not started, waiting for the fetch, finished.\<close>

fun phase :: "string \<times> task \<Rightarrow> nat" where
  "phase (u, NotStarted) = 0"
| "phase (u, Fetching) = 1"
| "phase (u, Done r) = 2"

section \<open>Concrete scenarios\<close>

text \<open>A configuration whose cache limits are out of range, a plugin that is already
  processing one URL, a page that every collaborator handles, and an environment without
  batch-level failures.\<close>

definition demo_config :: config where
  "demo_config =
     \<lparr>cfg_cache_settings = Some \<lparr>cfg_enable_cache = Some True, cfg_cache_expire_time = Some 1,
                                  cfg_max_cache_size = Some 5000\<rparr>,
      cfg_enable_translation = False, cfg_enable_screenshot = True\<rparr>"

definition busy_plugin :: WebAnalyzerPlugin where
  "busy_plugin = (WebAnalyzerPlugin_init demo_config)\<lparr>processing_urls := {''http://a''}\<rparr>"

definition good_page :: behaviour where
  "good_page =
     \<lparr>check_time = 0, fetch_webpage = Returns (Some ''<html>''),
      extract_content = Returns (Some \<lparr>title = ''T'', content = ''C'', content_url = ''U''\<rparr>),
      translate_body = (\<lambda>c. Returns None), llm_body = (\<lambda>cd. Returns ''summary''),
      specific_content = Returns None, capture_screenshot = Returns (Some ''PNG''),
      update_time = 0\<rparr>"

definition quiet_env :: environment where
  "quiet_env =
     \<lparr>behaviour_of = (\<lambda>u. good_page), schedule = [1, 0], acquire = Returns (),
      cancel_after = None, release_client = Returns (), send = Returns ()\<rparr>"

text \<open>A plugin with an empty cache, a page whose summarizer call raises, a page whose
  fetch raises, a plugin whose cache holds an entry for one URL, the same plugin with the
  cache switched off, and a cache of capacity two that is full.\<close>

definition fresh_plugin :: WebAnalyzerPlugin where
  "fresh_plugin = WebAnalyzerPlugin_init demo_config"

definition llm_down :: behaviour where
  "llm_down = good_page\<lparr>llm_body := (\<lambda>cd. Raises ''timeout'')\<rparr>"

definition llm_down_env :: environment where
  "llm_down_env = quiet_env\<lparr>behaviour_of := (\<lambda>u. llm_down)\<rparr>"

definition fetch_fails :: behaviour where
  "fetch_fails = good_page\<lparr>fetch_webpage := Raises ''connection refused''\<rparr>"

definition mixed_env :: environment where
  "mixed_env = quiet_env\<lparr>behaviour_of := (\<lambda>u. if u = ''http://a'' then fetch_fails else good_page)\<rparr>"

definition cached_b :: result_data where
  "cached_b = \<lparr>url = ''http://b'', result = ''earlier summary'', screenshot = None\<rparr>"

definition warm_plugin :: WebAnalyzerPlugin where
  "warm_plugin = update_cache fresh_plugin ''http://b'' cached_b 0"

definition uncached_plugin :: WebAnalyzerPlugin where
  "uncached_plugin = warm_plugin\<lparr>enable_cache := False\<rparr>"

definition small_cache :: CacheManager where
  "small_cache = apply_ops (CacheManager_init 2 5)
     [Set ''http://a'' cached_b 0, Set ''http://b'' cached_b 1]"





text \<open>The plugin state after the admission loop of a batch.\<close>

definition admitted_state :: "WebAnalyzerPlugin \<Rightarrow> string list \<Rightarrow> WebAnalyzerPlugin" where
  "admitted_state st urls = st\<lparr>processing_urls := processing_urls st \<union> set urls\<rparr>"

section \<open>Invariants of the task scheduler\<close>

text \<open>
  Two predicates on the state of the running tasks, used in the proofs only. The first
  relates each task to the log of fetched URLs and to the result of its pipeline; the
  second says that, as long as the cache has room for one entry per unfinished task whose
  lookup before the batch misses, the
  cache lookup of a task that has not started is the lookup in the state before the batch.
\<close>

fun task_ok :: "WebAnalyzerPlugin \<Rightarrow> (string \<Rightarrow> behaviour) \<Rightarrow> string list \<Rightarrow> string \<times> task \<Rightarrow> bool" where
  "task_ok st0 beh F (u, NotStarted) = (u \<notin> set F)"
| "task_ok st0 beh F (u, Fetching) = (u \<in> set F)"
| "task_ok st0 beh F (u, Done r) =
     (url r = u \<and> (u \<in> set F \<longrightarrow> r = snd (resume_task st0 (beh u) u)))"

definition gather_inv :: "WebAnalyzerPlugin \<Rightarrow> (string \<Rightarrow> behaviour) \<Rightarrow> gather_state \<Rightarrow> bool" where
  "gather_inv st0 beh g =
     (enable_translation (g_plugin g) = enable_translation st0
      \<and> enable_screenshot (g_plugin g) = enable_screenshot st0
      \<and> enable_cache (g_plugin g) = enable_cache st0
      \<and> (enable_cache st0 \<longrightarrow> cache_wf (cache_manager (g_plugin g)))
      \<and> distinct (map fst (g_tasks g))
      \<and> distinct (g_fetched g)
      \<and> set (g_fetched g) \<subseteq> set (map fst (g_tasks g))
      \<and> (\<forall>j < length (g_tasks g). task_ok st0 beh (g_fetched g) (g_tasks g ! j)))"

definition misses :: "WebAnalyzerPlugin \<Rightarrow> (string \<Rightarrow> behaviour) \<Rightarrow> string \<Rightarrow> bool" where
  "misses st0 beh u = (check_cache st0 u (check_time (beh u)) = None)"

definition todo :: "(string \<Rightarrow> bool) \<Rightarrow> (string \<times> task) list \<Rightarrow> nat" where
  "todo miss ts = length (filter (\<lambda>t. phase t < 2 \<and> miss (fst t)) ts)"

fun lookup_ok ::
  "WebAnalyzerPlugin \<Rightarrow> (string \<Rightarrow> behaviour) \<Rightarrow> WebAnalyzerPlugin \<Rightarrow> string list \<Rightarrow> string \<times> task \<Rightarrow> bool" where
  "lookup_ok st0 beh st F (u, NotStarted) =
     (\<forall>now. check_cache st u now = check_cache st0 u now)"
| "lookup_ok st0 beh st F (u, Fetching) = (check_cache st0 u (check_time (beh u)) = None)"
| "lookup_ok st0 beh st F (u, Done r) =
     (check_cache st0 u (check_time (beh u)) = (if u \<in> set F then None else Some r))"

definition lookup_inv :: "WebAnalyzerPlugin \<Rightarrow> (string \<Rightarrow> behaviour) \<Rightarrow> gather_state \<Rightarrow> bool" where
  "lookup_inv st0 beh g =
     (max_size (cache_manager (g_plugin g)) = max_size (cache_manager st0)
      \<and> (enable_cache st0 \<longrightarrow>
            int (length (entries (cache_manager (g_plugin g))))
              + int (todo (misses st0 beh) (g_tasks g))
              \<le> max_size (cache_manager st0))
      \<and> (\<forall>j < length (g_tasks g). lookup_ok st0 beh (g_plugin g) (g_fetched g) (g_tasks g ! j)))"

section \<open>Auxiliary facts about the tasks and the loops\<close>

lemma run_steps_invariant:
  assumes "P g" and "\<And>g i. P g \<Longrightarrow> P (step_task beh g i)"
  shows "P (run_steps beh g sched)"
  using assms(1) unfolding run_steps_def
  by (induction sched arbitrary: g) (simp_all add: assms(2))

lemma update_cache_frame:
  "processing_urls (update_cache st u r t) = processing_urls st"
  "enable_cache (update_cache st u r t) = enable_cache st"
  "enable_translation (update_cache st u r t) = enable_translation st"
  "enable_screenshot (update_cache st u r t) = enable_screenshot st"
  by (simp_all add: update_cache_def)

lemma after_fetch_cases:
  assumes "after_fetch st b u = Returns (st', r)"
  shows "url r = u \<and> (st' = st \<or> st' = update_cache st u r (update_time b))"
  using assms unfolding after_fetch_def
  by (auto simp: Let_def split: outcome.splits option.splits if_splits)

lemma resume_task_cases:
  assumes "resume_task st b u = (st', r)"
  shows "url r = u \<and> (st' = st \<or> st' = update_cache st u r (update_time b))"
proof (cases "after_fetch st b u")
  case (Returns p)
  then show ?thesis using assms after_fetch_cases [of st b u "fst p" "snd p"]
    by (cases p) (simp add: resume_task_def)
next
  case (Raises e)
  then show ?thesis using assms by (auto simp: resume_task_def except_result_def)
qed

lemma step_task_urls: "map fst (g_tasks (step_task beh g i)) = map fst (g_tasks g)"
  by (auto simp: step_task_def Let_def map_update list_update_same_conv
           split: prod.splits task.splits option.splits)

lemma step_task_processing:
  "processing_urls (g_plugin (step_task beh g i)) = processing_urls (g_plugin g)"
  by (auto simp: step_task_def Let_def update_cache_frame
           split: prod.splits task.splits option.splits dest!: resume_task_cases)

lemma admit_loop_snd: "snd (admit_loop us (f, p)) = p \<union> set us"
  by (induction us arbitrary: f p) auto

lemma admit_loop_fst_acc: "fst (admit_loop us (f, p)) = f @ fst (admit_loop us ([], p))"
proof (induction us arbitrary: f p)
  case Nil
  show ?case by simp
next
  case (Cons u us)
  show ?case
    using Cons.IH [of "f @ [u]" "insert u p"] Cons.IH [of "[u]" "insert u p"] Cons.IH [of f p]
    by simp
qed

lemma admit_loop_Cons:
  "fst (admit_loop (u # us) ([], p)) =
     (if u \<notin> p then u # fst (admit_loop us ([], insert u p)) else fst (admit_loop us ([], p)))"
  using admit_loop_fst_acc [of us "[u]" "insert u p"] by simp

lemma admit_loop_set: "set (fst (admit_loop us ([], p))) = set us - p"
proof (induction us arbitrary: p)
  case Nil
  show ?case by simp
next
  case (Cons u us)
  show ?case unfolding admit_loop_Cons using Cons.IH by auto
qed

lemma admit_loop_distinct: "distinct (fst (admit_loop us ([], p)))"
proof (induction us arbitrary: p)
  case Nil
  show ?case by simp
next
  case (Cons u us)
  show ?case unfolding admit_loop_Cons using Cons.IH by (simp add: admit_loop_set)
qed

lemma remdups_snoc: "remdups (xs @ [x]) = remdups (filter (\<lambda>y. y \<noteq> x) xs) @ [x]"
  by (induction xs) auto

lemma admit_loop_first_occurrences:
  "fst (admit_loop us ([], p)) = rev (remdups (rev (filter (\<lambda>u. u \<notin> p) us)))"
proof (induction us arbitrary: p)
  case Nil
  show ?case by simp
next
  case (Cons u us)
  have "filter (\<lambda>y. y \<noteq> u) (rev (filter (\<lambda>x. x \<notin> p) us)) = rev (filter (\<lambda>x. x \<notin> insert u p) us)"
    by (simp add: rev_filter [symmetric] conj_commute)
  then show ?case unfolding admit_loop_Cons using Cons.IH
    by (simp add: remdups_snoc)
qed

lemma release_loop_eq: "release_loop us p = p - set us"
  by (induction us arbitrary: p) auto

lemma filtered_urls_admit: "admit_loop urls ([], processing_urls st) = (filtered_urls st urls, processing_urls st \<union> set urls)"
  using admit_loop_snd [of urls "[]" "processing_urls st"]
  by (simp add: filtered_urls_def prod_eq_iff)

lemma run_steps_processing:
  "processing_urls (g_plugin (run_steps beh g sched)) = processing_urls (g_plugin g)"
  by (rule run_steps_invariant [where P = "\<lambda>g'. processing_urls (g_plugin g') = processing_urls (g_plugin g)"])
     (simp_all add: step_task_processing)

lemma try_block_processing:
  "processing_urls (final (try_block st env us)) = processing_urls st"
  by (simp add: try_block_def gather_def run_steps_processing gather_init_def Let_def
           split: outcome.splits option.splits)

lemma batch_processing_urls:
  "processing_urls (final (batch_process_urls st env urls)) = processing_urls st"
proof -
  have "set (filtered_urls st urls) = set urls - processing_urls st"
    by (simp add: filtered_urls_def admit_loop_set)
  then show ?thesis
    by (auto simp: batch_process_urls_def filtered_urls_admit Let_def try_block_processing
          release_loop_eq)
qed

lemma step_task_length: "length (g_tasks (step_task beh g i)) = length (g_tasks g)"
  using arg_cong [OF step_task_urls [of beh g i], of length] by simp

lemma run_steps_urls: "map fst (g_tasks (run_steps beh g sched)) = map fst (g_tasks g)"
  by (rule run_steps_invariant [where P = "\<lambda>g'. map fst (g_tasks g') = map fst (g_tasks g)"])
     (simp_all add: step_task_urls)

lemma run_steps_length: "length (g_tasks (run_steps beh g sched)) = length (g_tasks g)"
  using arg_cong [OF run_steps_urls [of beh g sched], of length] by simp

lemma step_task_phase:
  assumes "j < length (g_tasks g)"
  shows "(if i = j then min 2 (Suc (phase (g_tasks g ! j))) else phase (g_tasks g ! j))
           \<le> phase (g_tasks (step_task beh g i) ! j)"
  using assms
  by (auto simp: step_task_def Let_def split: prod.splits task.splits option.splits)

lemma phase_arith:
  fixes p :: nat
  assumes "min 2 (a' + c) \<le> p" and "(if b then min 2 (Suc a) else a) \<le> a'"
  shows "min 2 (a + ((if b then 1 else 0) + c)) \<le> p"
  using assms by (cases b) (simp_all add: min_def split: if_splits)

lemma run_steps_phase:
  assumes "j < length (g_tasks g)"
  shows "min 2 (phase (g_tasks g ! j) + count_list sched j)
           \<le> phase (g_tasks (run_steps beh g sched) ! j)"
  using assms
proof (induction sched arbitrary: g)
  case Nil
  show ?case by (simp add: run_steps_def)
next
  case (Cons i sched)
  have len: "j < length (g_tasks (step_task beh g i))"
    using Cons.prems by (simp add: step_task_length)
  have "run_steps beh g (i # sched) = run_steps beh (step_task beh g i) sched"
    by (simp add: run_steps_def)
  moreover have "count_list (i # sched) j = (if i = j then 1 else 0) + count_list sched j"
    by simp
  ultimately show ?case
    using phase_arith [OF Cons.IH [OF len] step_task_phase [OF Cons.prems, where beh = beh and i = i]]
    by presburger
qed

lemma count_list_upt: "count_list [0..<n] j = (if j < n then 1 else 0)"
  by (induction n) auto

lemma gather_tasks_urls: "map fst (g_tasks (gather beh sched st us)) = us"
  by (simp add: gather_def run_steps_urls gather_init_def comp_def)

lemma gather_all_done:
  assumes "j < length us"
  shows "phase (g_tasks (gather beh sched st us) ! j) = 2"
proof -
  have "j < length (g_tasks (gather_init st us))"
    using assms by (simp add: gather_init_def)
  from run_steps_phase [OF this, where sched = "sched @ [0..<length us] @ [0..<length us]" and beh = beh] assms
  have "2 \<le> phase (g_tasks (gather beh sched st us) ! j)"
    unfolding gather_def run_steps_def by (simp add: count_list_upt)
  moreover have "phase (g_tasks (gather beh sched st us) ! j) \<le> 2"
    by (cases "g_tasks (gather beh sched st us) ! j" rule: phase.cases) simp_all
  ultimately show ?thesis by simp
qed

lemma map_filter_all_done:
  assumes "\<forall>j < length ts. phase (ts ! j) = 2"
  shows "length (List.map_filter task_result ts) = length ts
         \<and> (\<forall>j < length ts. task_result (ts ! j) = Some (List.map_filter task_result ts ! j))"
  using assms
proof (induction ts)
  case Nil
  show ?case by simp
next
  case (Cons t ts)
  have t: "phase t = 2" using Cons.prems by auto
  then obtain u r where tr: "t = (u, Done r)" by (cases t rule: phase.cases) simp_all
  have "\<forall>j < length ts. phase (ts ! j) = 2" using Cons.prems by auto
  from Cons.IH [OF this] show ?case
    by (auto simp: tr nth_Cons split: nat.splits)
qed

lemma gather_results_length:
  "length (gather_results (gather beh sched st us)) = length us"
proof -
  let ?ts = "g_tasks (gather beh sched st us)"
  have len: "length ?ts = length us"
    using arg_cong [OF gather_tasks_urls [of beh sched st us], of length] by simp
  then have "\<forall>j < length ?ts. phase (?ts ! j) = 2" by (simp add: gather_all_done)
  from map_filter_all_done [OF this] len show ?thesis by (simp add: gather_results_def)
qed

lemma gather_results_nth:
  assumes "j < length us"
  shows "g_tasks (gather beh sched st us) ! j = (us ! j, Done (gather_results (gather beh sched st us) ! j))"
proof -
  let ?ts = "g_tasks (gather beh sched st us)"
  have len: "length ?ts = length us"
    using arg_cong [OF gather_tasks_urls [of beh sched st us], of length] by simp
  then have "\<forall>j < length ?ts. phase (?ts ! j) = 2" by (simp add: gather_all_done)
  from map_filter_all_done [OF this] len assms
  have tr: "task_result (?ts ! j) = Some (gather_results (gather beh sched st us) ! j)"
    by (simp add: gather_results_def)
  have "fst (?ts ! j) = us ! j"
    using arg_cong [OF gather_tasks_urls [of beh sched st us], of "\<lambda>xs. xs ! j"] len assms
    by simp
  with tr show ?thesis by (cases "?ts ! j" rule: task_result.cases) simp_all
qed

lemma cache_get_wf:
  assumes "cache_wf c" and "cache_get c k now = Some r"
  shows "url r = k"
proof -
  from assms(2) obtain e where e: "map_of (entries c) k = Some e" and r: "entry_value e = r"
    by (auto simp: cache_get_def split: option.splits if_splits)
  from e have "(k, e) \<in> set (entries c)" by (rule map_of_SomeD)
  with assms(1) r show ?thesis by (auto simp: cache_wf_def list_all_iff)
qed

lemma cache_set_wf:
  assumes "cache_wf c" and "url r = k"
  shows "cache_wf (cache_set c k r now)"
proof -
  have "set (tl (entries c)) \<subseteq> set (entries c)"
    by (cases "entries c") auto
  with assms show ?thesis
    by (auto simp: cache_wf_def cache_set_def list_all_iff fresh_entry_def split: if_splits)
qed

lemma update_cache_wf:
  assumes "cache_wf (cache_manager st)" and "url r = u"
  shows "cache_wf (cache_manager (update_cache st u r now))"
  using assms by (simp add: update_cache_def cache_set_wf)

lemma check_cache_wf:
  assumes "cache_wf (cache_manager st)" and "check_cache st u now = Some r"
  shows "url r = u"
  using assms cache_get_wf [of "cache_manager st" u now r]
  by (simp add: check_cache_def split: if_splits)

lemma after_fetch_flags:
  assumes "enable_translation st = enable_translation st'"
      and "enable_screenshot st = enable_screenshot st'"
  shows "map_outcome snd (after_fetch st b u) = map_outcome snd (after_fetch st' b u)"
  using assms unfolding after_fetch_def
  by (simp add: Let_def translate_content_def split: outcome.splits option.splits)

lemma resume_task_flags:
  assumes "enable_translation st = enable_translation st'"
      and "enable_screenshot st = enable_screenshot st'"
  shows "snd (resume_task st b u) = snd (resume_task st' b u)"
  using after_fetch_flags [OF assms, of b u]
  by (cases "after_fetch st b u"; cases "after_fetch st' b u")
     (auto simp: resume_task_def split: prod.splits)

lemma task_ok_other:
  assumes "fst t \<noteq> u"
  shows "task_ok st0 beh (F @ [u]) t = task_ok st0 beh F t"
proof (cases t)
  case (Pair u' tk)
  then show ?thesis using assms by (cases tk) auto
qed

lemma step_task_inv:
  assumes inv: "gather_inv st0 beh g"
  shows "gather_inv st0 beh (step_task beh g i)"
proof (cases "i < length (g_tasks g)")
  case False
  then show ?thesis using inv by (simp add: step_task_def)
next
  case True
  obtain u t where ut: "g_tasks g ! i = (u, t)" by (cases "g_tasks g ! i")
  let ?F = "g_fetched g"
  have oki: "task_ok st0 beh ?F (u, t)"
    using inv True ut by (auto simp: gather_inv_def)
  have okj: "\<And>j. j < length (g_tasks g) \<Longrightarrow> task_ok st0 beh ?F (g_tasks g ! j)"
    using inv by (simp add: gather_inv_def)
  have dist: "distinct (map fst (g_tasks g))" using inv by (simp add: gather_inv_def)
  have uin: "u \<in> set (map fst (g_tasks g))"
    using True ut nth_mem [of i "map fst (g_tasks g)"] by simp
  have other: "fst (g_tasks g ! j) \<noteq> u" if "j < length (g_tasks g)" "j \<noteq> i" for j
    using that dist True ut nth_eq_iff_index_eq [of "map fst (g_tasks g)" j i] by auto
  have urls: "map fst (g_tasks (step_task beh g i)) = map fst (g_tasks g)"
    by (rule step_task_urls)
  show ?thesis
  proof (cases t)
    case NotStarted
    show ?thesis
    proof (cases "check_cache (g_plugin g) u (check_time (beh u))")
      case None
      have step: "step_task beh g i =
          g\<lparr>g_tasks := (g_tasks g)[i := (u, Fetching)], g_fetched := ?F @ [u]\<rparr>"
        by (simp add: step_task_def True ut NotStarted None)
      have new: "u \<notin> set ?F" using oki NotStarted by simp
      have "task_ok st0 beh (?F @ [u]) ((g_tasks g)[i := (u, Fetching)] ! j)"
        if "j < length (g_tasks g)" for j
      proof (cases "j = i")
        case True
        then show ?thesis using that by simp
      next
        case False
        then show ?thesis
          using that okj [OF that] other [OF that False] by (simp add: task_ok_other)
      qed
      then show ?thesis
        using inv new uin urls unfolding step gather_inv_def by auto
    next
      case (Some r)
      have step: "step_task beh g i = g\<lparr>g_tasks := (g_tasks g)[i := (u, Done r)]\<rparr>"
        by (simp add: step_task_def True ut NotStarted Some)
      have "enable_cache (g_plugin g)" using Some by (simp add: check_cache_def split: if_splits)
      then have wf: "cache_wf (cache_manager (g_plugin g))" using inv by (simp add: gather_inv_def)
      have ur: "url r = u" using check_cache_wf [OF wf Some] .
      have new: "u \<notin> set ?F" using oki NotStarted by simp
      have "task_ok st0 beh ?F ((g_tasks g)[i := (u, Done r)] ! j)"
        if "j < length (g_tasks g)" for j
        using that okj [OF that] ur new by (cases "j = i") simp_all
      then show ?thesis
        using inv urls unfolding step gather_inv_def by auto
    qed
  next
    case Fetching
    obtain st' r where res: "resume_task (g_plugin g) (beh u) u = (st', r)"
      by (cases "resume_task (g_plugin g) (beh u) u")
    have step: "step_task beh g i = g\<lparr>g_plugin := st', g_tasks := (g_tasks g)[i := (u, Done r)]\<rparr>"
      by (simp add: step_task_def True ut Fetching res)
    from resume_task_cases [OF res]
    have ur: "url r = u"
      and st': "st' = g_plugin g \<or> st' = update_cache (g_plugin g) u r (update_time (beh u))"
      by simp_all
    have flags: "enable_translation (g_plugin g) = enable_translation st0"
                "enable_screenshot (g_plugin g) = enable_screenshot st0"
      using inv by (simp_all add: gather_inv_def)
    have rr: "r = snd (resume_task st0 (beh u) u)"
      using resume_task_flags [OF flags, of "beh u" u] res by simp
    have wf: "enable_cache st0 \<longrightarrow> cache_wf (cache_manager st')"
      using st' inv ur by (auto simp: gather_inv_def update_cache_wf)
    have fl: "enable_translation st' = enable_translation st0"
             "enable_screenshot st' = enable_screenshot st0"
             "enable_cache st' = enable_cache st0"
      using st' inv by (auto simp: gather_inv_def update_cache_frame)
    have "task_ok st0 beh ?F ((g_tasks g)[i := (u, Done r)] ! j)"
      if "j < length (g_tasks g)" for j
      using that okj [OF that] ur rr by (cases "j = i") simp_all
    then show ?thesis
      using inv urls wf fl unfolding step gather_inv_def by auto
  next
    case (Done r)
    then show ?thesis using inv by (simp add: step_task_def True ut)
  qed
qed

lemma gather_init_inv:
  assumes "distinct us" and "enable_cache st \<longrightarrow> cache_wf (cache_manager st)"
  shows "gather_inv st beh (gather_init st us)"
  using assms by (simp add: gather_inv_def gather_init_def comp_def)

lemma run_steps_inv:
  assumes "distinct us" and "enable_cache st \<longrightarrow> cache_wf (cache_manager st)"
  shows "gather_inv st beh (run_steps beh (gather_init st us) sched)"
  by (rule run_steps_invariant [where P = "gather_inv st beh"])
     (simp_all add: gather_init_inv [OF assms] step_task_inv)

lemma filter_update_count:
  assumes "i < length ts"
  shows "length (filter P (ts[i := y])) + (if P (ts ! i) then 1 else 0)
           = length (filter P ts) + (if P y then 1 else 0)"
  using assms
proof (induction ts arbitrary: i)
  case Nil
  then show ?case by simp
next
  case (Cons t ts)
  show ?case
  proof (cases i)
    case 0
    then show ?thesis by simp
  next
    case (Suc n)
    then have "n < length ts" using Cons.prems by simp
    from Cons.IH [OF this] show ?thesis using Suc by simp
  qed
qed

lemma todo_update:
  assumes "i < length ts"
  shows "todo miss (ts[i := y]) + (if phase (ts ! i) < 2 \<and> miss (fst (ts ! i)) then 1 else 0)
           = todo miss ts + (if phase y < 2 \<and> miss (fst y) then 1 else 0)"
  unfolding todo_def
  by (rule filter_update_count [OF assms, where P = "\<lambda>t. phase t < 2 \<and> miss (fst t)"])

lemma cache_set_other:
  assumes "k' \<noteq> k" and "int (length (entries c)) < max_size c"
  shows "map_of (entries (cache_set c k v now)) k' = map_of (entries c) k'"
proof -
  have "map_of (map (\<lambda>(a, e'). if a = k then (a, e) else (a, e')) es) k' = map_of es k'"
    for es :: "(string \<times> CacheEntry) list" and e
    using assms(1) by (induction es) auto
  then show ?thesis using assms
    by (auto simp: cache_set_def map_add_def split: option.splits)
qed

lemma cache_set_length:
  "length (entries (cache_set c k v now)) \<le> Suc (length (entries c))"
  by (simp add: cache_set_def)

lemma cache_set_max_size: "max_size (cache_set c k v now) = max_size c"
  by (simp add: cache_set_def)

lemma update_cache_other:
  assumes "u' \<noteq> u"
      and "enable_cache st \<longrightarrow> int (length (entries (cache_manager st))) < max_size (cache_manager st)"
  shows "check_cache (update_cache st u r t) u' now = check_cache st u' now"
  using assms cache_set_other [of u' u "cache_manager st" r t]
  by (simp add: check_cache_def update_cache_def cache_get_def)

lemma update_cache_length:
  "length (entries (cache_manager (update_cache st u r t))) \<le> Suc (length (entries (cache_manager st)))"
  using cache_set_length [of "cache_manager st" u r t] by (simp add: update_cache_def)

lemma update_cache_max_size:
  "max_size (cache_manager (update_cache st u r t)) = max_size (cache_manager st)"
  by (simp add: update_cache_def cache_set_max_size)

lemma lookup_ok_other:
  assumes "fst t \<noteq> u"
  shows "lookup_ok st0 beh st (F @ [u]) t = lookup_ok st0 beh st F t"
proof (cases t)
  case (Pair u' tk)
  then show ?thesis using assms by (cases tk) auto
qed

lemma lookup_ok_plugin:
  assumes "\<And>now. check_cache st' (fst t) now = check_cache st (fst t) now"
  shows "lookup_ok st0 beh st' F t = lookup_ok st0 beh st F t"
proof (cases t)
  case (Pair u' tk)
  then show ?thesis using assms by (cases tk) auto
qed

lemma step_task_lookup_inv:
  assumes inv: "gather_inv st0 beh g" and linv: "lookup_inv st0 beh g"
  shows "lookup_inv st0 beh (step_task beh g i)"
proof (cases "i < length (g_tasks g)")
  case False
  then show ?thesis using linv by (simp add: step_task_def)
next
  case True
  obtain u t where ut: "g_tasks g ! i = (u, t)" by (cases "g_tasks g ! i")
  let ?F = "g_fetched g"
  let ?st = "g_plugin g"
  have oki: "task_ok st0 beh ?F (u, t)"
    using inv True ut by (auto simp: gather_inv_def)
  have lki: "lookup_ok st0 beh ?st ?F (u, t)"
    using linv True ut by (auto simp: lookup_inv_def)
  have lkj: "\<And>j. j < length (g_tasks g) \<Longrightarrow> lookup_ok st0 beh ?st ?F (g_tasks g ! j)"
    using linv by (simp add: lookup_inv_def)
  have dist: "distinct (map fst (g_tasks g))" using inv by (simp add: gather_inv_def)
  have other: "fst (g_tasks g ! j) \<noteq> u" if "j < length (g_tasks g)" "j \<noteq> i" for j
    using that dist True ut nth_eq_iff_index_eq [of "map fst (g_tasks g)" j i] by auto
  have ms: "max_size (cache_manager ?st) = max_size (cache_manager st0)"
    using linv by (simp add: lookup_inv_def)
  have room: "enable_cache st0 \<longrightarrow>
      int (length (entries (cache_manager ?st))) + int (todo (misses st0 beh) (g_tasks g))
        \<le> max_size (cache_manager st0)"
    using linv by (simp add: lookup_inv_def)
  have ec: "enable_cache ?st = enable_cache st0" using inv by (simp add: gather_inv_def)
  show ?thesis
  proof (cases t)
    case NotStarted
    have same: "\<And>now. check_cache ?st u now = check_cache st0 u now"
      using lki NotStarted by simp
    show ?thesis
    proof (cases "check_cache ?st u (check_time (beh u))")
      case None
      have step: "step_task beh g i =
          g\<lparr>g_tasks := (g_tasks g)[i := (u, Fetching)], g_fetched := ?F @ [u]\<rparr>"
        by (simp add: step_task_def True ut NotStarted None)
      have td: "todo (misses st0 beh) ((g_tasks g)[i := (u, Fetching)])
          = todo (misses st0 beh) (g_tasks g)"
        using todo_update [OF True, where y = "(u, Fetching)" and miss = "misses st0 beh"]
          ut NotStarted by simp
      have "lookup_ok st0 beh ?st (?F @ [u]) ((g_tasks g)[i := (u, Fetching)] ! j)"
        if "j < length (g_tasks g)" for j
      proof (cases "j = i")
        case True
        then show ?thesis using that same [of "check_time (beh u)"] None by simp
      next
        case False
        then show ?thesis
          using that lkj [OF that] other [OF that False] by (simp add: lookup_ok_other)
      qed
      then show ?thesis
        using ms room td unfolding step lookup_inv_def by simp
    next
      case (Some r)
      have step: "step_task beh g i = g\<lparr>g_tasks := (g_tasks g)[i := (u, Done r)]\<rparr>"
        by (simp add: step_task_def True ut NotStarted Some)
      have td: "todo (misses st0 beh) ((g_tasks g)[i := (u, Done r)])
          \<le> todo (misses st0 beh) (g_tasks g)"
        using todo_update [OF True, where y = "(u, Done r)" and miss = "misses st0 beh"]
          ut NotStarted by simp
      have new: "u \<notin> set ?F" using oki NotStarted by simp
      have "lookup_ok st0 beh ?st ?F ((g_tasks g)[i := (u, Done r)] ! j)"
        if "j < length (g_tasks g)" for j
        using that lkj [OF that] new same [of "check_time (beh u)"] Some
        by (cases "j = i") simp_all
      then show ?thesis
        using ms room td unfolding step lookup_inv_def by auto
    qed
  next
    case Fetching
    obtain st' r where res: "resume_task ?st (beh u) u = (st', r)"
      by (cases "resume_task ?st (beh u) u")
    have step: "step_task beh g i = g\<lparr>g_plugin := st', g_tasks := (g_tasks g)[i := (u, Done r)]\<rparr>"
      by (simp add: step_task_def True ut Fetching res)
    from resume_task_cases [OF res]
    have st': "st' = ?st \<or> st' = update_cache ?st u r (update_time (beh u))"
      by simp
    have "misses st0 beh u" using lki Fetching by (simp add: misses_def)
    then have td: "Suc (todo (misses st0 beh) ((g_tasks g)[i := (u, Done r)]))
        = todo (misses st0 beh) (g_tasks g)"
      using todo_update [OF True, where y = "(u, Done r)" and miss = "misses st0 beh"]
        ut Fetching by simp
    then have pos: "0 < todo (misses st0 beh) (g_tasks g)" by simp
    have free: "enable_cache ?st \<longrightarrow>
        int (length (entries (cache_manager ?st))) < max_size (cache_manager ?st)"
      using room pos ec ms by auto
    have ms': "max_size (cache_manager st') = max_size (cache_manager st0)"
      using st' ms by (auto simp: update_cache_max_size)
    have len': "length (entries (cache_manager st')) \<le> Suc (length (entries (cache_manager ?st)))"
      using st' update_cache_length [of ?st u r "update_time (beh u)"] by auto
    have room': "enable_cache st0 \<longrightarrow>
      int (length (entries (cache_manager st')))
        + int (todo (misses st0 beh) ((g_tasks g)[i := (u, Done r)]))
        \<le> max_size (cache_manager st0)"
      using room len' td by linarith
    have uin: "u \<in> set ?F" using oki Fetching by simp
    have "lookup_ok st0 beh st' ?F ((g_tasks g)[i := (u, Done r)] ! j)"
      if "j < length (g_tasks g)" for j
    proof (cases "j = i")
      case True
      then show ?thesis using that lki Fetching uin by simp
    next
      case False
      have "check_cache st' (fst (g_tasks g ! j)) now = check_cache ?st (fst (g_tasks g ! j)) now"
        for now
        using st' update_cache_other [OF other [OF that False] free] by auto
      from lookup_ok_plugin [of st' "g_tasks g ! j" ?st, OF this]
      show ?thesis using that False lkj [OF that] by simp
    qed
    then show ?thesis
      using ms' room' unfolding step lookup_inv_def by simp
  next
    case (Done r)
    then show ?thesis using linv by (simp add: step_task_def True ut)
  qed
qed

lemma todo_init: "todo miss (map (\<lambda>u. (u, NotStarted)) us) = length (filter miss us)"
  by (induction us) (simp_all add: todo_def)

lemma gather_init_lookup_inv:
  assumes "enable_cache st \<longrightarrow>
     int (length (entries (cache_manager st))) + int (length (filter (misses st beh) us))
       \<le> max_size (cache_manager st)"
  shows "lookup_inv st beh (gather_init st us)"
  using assms by (simp add: lookup_inv_def gather_init_def todo_init)

lemma run_steps_both_inv:
  assumes "distinct us" and "enable_cache st \<longrightarrow> cache_wf (cache_manager st)"
      and "enable_cache st \<longrightarrow>
     int (length (entries (cache_manager st))) + int (length (filter (misses st beh) us))
       \<le> max_size (cache_manager st)"
  shows "gather_inv st beh (run_steps beh (gather_init st us) sched)
         \<and> lookup_inv st beh (run_steps beh (gather_init st us) sched)"
  by (rule run_steps_invariant [where P = "\<lambda>g. gather_inv st beh g \<and> lookup_inv st beh g"])
     (simp_all add: gather_init_inv [OF assms(1,2)] gather_init_lookup_inv [OF assms(3)]
        step_task_inv step_task_lookup_inv)

section \<open>Auxiliary facts about the batch processor\<close>

lemma admitted_state_simps:
  "enable_cache (admitted_state st urls) = enable_cache st"
  "enable_translation (admitted_state st urls) = enable_translation st"
  "enable_screenshot (admitted_state st urls) = enable_screenshot st"
  "cache_manager (admitted_state st urls) = cache_manager st"
  "check_cache (admitted_state st urls) u now = check_cache st u now"
  "snd (resume_task (admitted_state st urls) b u) = snd (resume_task st b u)"
  using resume_task_flags [of "admitted_state st urls" st b u]
  by (simp_all add: admitted_state_def check_cache_def)

lemma batch_nonempty:
  assumes "filtered_urls st urls \<noteq> []"
  shows "batch_process_urls st env urls =
     (let out = try_block (admitted_state st urls) env (filtered_urls st urls)
      in out\<lparr>final := (final out)\<lparr>processing_urls :=
           release_loop (filtered_urls st urls) (processing_urls (final out))\<rparr>\<rparr>)"
  using assms by (simp add: batch_process_urls_def filtered_urls_admit admitted_state_def)

lemma batch_empty:
  assumes "filtered_urls st urls = []"
  shows "batch_process_urls st env urls =
     \<lparr>final = admitted_state st urls, analysis_results = [], fetched = [],
      clients_acquired = 0, status = Completed\<rparr>"
  using assms by (simp add: batch_process_urls_def filtered_urls_admit admitted_state_def)

lemma filtered_urls_distinct: "distinct (filtered_urls st urls)"
  by (simp add: filtered_urls_def admit_loop_distinct)

lemma filtered_urls_first_occurrences:
  "filtered_urls st urls = rev (remdups (rev (filter (\<lambda>u. u \<notin> processing_urls st) urls)))"
  by (simp add: filtered_urls_def admit_loop_first_occurrences)

lemma filtered_urls_set: "set (filtered_urls st urls) = set urls - processing_urls st"
  by (simp add: filtered_urls_def admit_loop_set)

lemma run_steps_no_tasks:
  assumes "g_tasks g = []"
  shows "run_steps beh g sched = g"
  by (rule run_steps_invariant [where P = "\<lambda>g'. g' = g"]) (simp_all add: step_task_def assms)

lemma gather_no_tasks: "gather beh sched st [] = gather_init st []"
  unfolding gather_def by (rule run_steps_no_tasks) (simp add: gather_init_def)

lemma batch_fetched:
  assumes "acquire env = Returns ()" and "cancel_after env = None"
  shows "fetched (batch_process_urls st env urls) =
     g_fetched (gather (behaviour_of env) (schedule env) (admitted_state st urls) (filtered_urls st urls))"
proof (cases "filtered_urls st urls = []")
  case True
  then show ?thesis
    by (simp add: batch_empty gather_no_tasks gather_init_def)
next
  case False
  then show ?thesis using assms
    by (simp add: batch_nonempty try_block_def Let_def split: outcome.splits)
qed

lemma batch_results:
  assumes "acquire env = Returns ()" and "cancel_after env = None"
      and "release_client env = Returns ()"
  shows "analysis_results (batch_process_urls st env urls) =
     gather_results (gather (behaviour_of env) (schedule env) (admitted_state st urls) (filtered_urls st urls))"
proof (cases "filtered_urls st urls = []")
  case True
  then show ?thesis
    by (simp add: batch_empty gather_no_tasks gather_init_def gather_results_def)
next
  case False
  then show ?thesis using assms
    by (simp add: batch_nonempty try_block_def Let_def)
qed

lemma batch_status:
  assumes "acquire env = Returns ()" and "cancel_after env = None"
      and "release_client env = Returns ()" and "send env = Returns ()"
  shows "status (batch_process_urls st env urls) = Completed"
proof (cases "filtered_urls st urls = []")
  case True
  then show ?thesis by (simp add: batch_empty)
next
  case False
  then show ?thesis using assms
    by (simp add: batch_nonempty try_block_def Let_def)
qed

lemma gather_inv_gather:
  assumes "distinct us" and "enable_cache st \<longrightarrow> cache_wf (cache_manager st)"
  shows "gather_inv st beh (gather beh sched st us)"
  unfolding gather_def by (rule run_steps_inv [OF assms])

lemma gather_facts:
  assumes "distinct us" and "enable_cache st \<longrightarrow> cache_wf (cache_manager st)"
      and "j < length us"
  shows "url (gather_results (gather beh sched st us) ! j) = us ! j"
    and "us ! j \<in> set (g_fetched (gather beh sched st us)) \<Longrightarrow>
           gather_results (gather beh sched st us) ! j = snd (resume_task st (beh (us ! j)) (us ! j))"
proof -
  let ?g = "gather beh sched st us"
  have len: "length (g_tasks ?g) = length us"
    using arg_cong [OF gather_tasks_urls [of beh sched st us], of length] by simp
  have "task_ok st beh (g_fetched ?g) (g_tasks ?g ! j)"
    using gather_inv_gather [OF assms(1,2), of beh sched] assms(3) len
    by (simp add: gather_inv_def)
  then have ok: "task_ok st beh (g_fetched ?g) (us ! j, Done (gather_results ?g ! j))"
    by (simp add: gather_results_nth [OF assms(3)])
  show "url (gather_results ?g ! j) = us ! j" using ok by simp
  show "us ! j \<in> set (g_fetched ?g) \<Longrightarrow>
           gather_results ?g ! j = snd (resume_task st (beh (us ! j)) (us ! j))"
    using ok by simp
qed

lemma gather_fetched:
  assumes "distinct us" and "enable_cache st \<longrightarrow> cache_wf (cache_manager st)"
  shows "distinct (g_fetched (gather beh sched st us))"
    and "set (g_fetched (gather beh sched st us)) \<subseteq> set us"
  using gather_inv_gather [OF assms, of beh sched] gather_tasks_urls [of beh sched st us]
  by (simp_all add: gather_inv_def)

lemma gather_results_urls:
  assumes "distinct us" and "enable_cache st \<longrightarrow> cache_wf (cache_manager st)"
  shows "map url (gather_results (gather beh sched st us)) = us"
  by (rule nth_equalityI)
     (simp_all add: gather_results_length gather_facts(1) [OF assms])

lemma gather_lookup:
  assumes "distinct us" and "enable_cache st \<longrightarrow> cache_wf (cache_manager st)"
      and "enable_cache st \<longrightarrow>
     int (length (entries (cache_manager st))) + int (length (filter (misses st beh) us))
       \<le> max_size (cache_manager st)"
      and "j < length us"
  shows "check_cache st (us ! j) (check_time (beh (us ! j))) =
     (if us ! j \<in> set (g_fetched (gather beh sched st us)) then None
      else Some (gather_results (gather beh sched st us) ! j))"
proof -
  let ?g = "gather beh sched st us"
  have len: "length (g_tasks ?g) = length us"
    using arg_cong [OF gather_tasks_urls [of beh sched st us], of length] by simp
  have "lookup_inv st beh ?g"
    unfolding gather_def using run_steps_both_inv [OF assms(1,2,3)] by simp
  then have "lookup_ok st beh (g_plugin ?g) (g_fetched ?g) (g_tasks ?g ! j)"
    using assms(4) len by (simp add: lookup_inv_def)
  then show ?thesis by (simp add: gather_results_nth [OF assms(4)])
qed

lemma admitted_wf:
  assumes "cache_wf (cache_manager st)"
  shows "enable_cache (admitted_state st urls) \<longrightarrow> cache_wf (cache_manager (admitted_state st urls))"
  using assms by (simp add: admitted_state_simps)

lemma batch_results_urls:
  assumes "cache_wf (cache_manager st)"
      and "acquire env = Returns ()" and "cancel_after env = None"
      and "release_client env = Returns ()"
  shows "map url (analysis_results (batch_process_urls st env urls)) = filtered_urls st urls"
  unfolding batch_results [OF assms(2,3,4)]
  by (rule gather_results_urls [OF filtered_urls_distinct admitted_wf [OF assms(1)]])

lemma batch_results_pipeline:
  assumes "cache_wf (cache_manager st)"
      and "acquire env = Returns ()" and "cancel_after env = None"
      and "release_client env = Returns ()"
      and "i < length (filtered_urls st urls)"
      and "filtered_urls st urls ! i \<in> set (fetched (batch_process_urls st env urls))"
  shows "analysis_results (batch_process_urls st env urls) ! i =
     snd (resume_task st (behaviour_of env (filtered_urls st urls ! i)) (filtered_urls st urls ! i))"
  using gather_facts(2) [OF filtered_urls_distinct admitted_wf [OF assms(1)] assms(5),
      of "behaviour_of env" "schedule env"] assms(6)
  unfolding batch_results [OF assms(2,3,4)] batch_fetched [OF assms(2,3)]
  by (simp add: admitted_state_simps)

lemma batch_fetched_distinct:
  assumes "cache_wf (cache_manager st)"
      and "acquire env = Returns ()" and "cancel_after env = None"
  shows "distinct (fetched (batch_process_urls st env urls))"
    and "set (fetched (batch_process_urls st env urls)) \<subseteq> set (filtered_urls st urls)"
  unfolding batch_fetched [OF assms(2,3)]
  using gather_fetched [OF filtered_urls_distinct admitted_wf [OF assms(1)]]
  by simp_all

lemma except_result_shape:
  "error_marked (result (except_result u e)) \<and> screenshot (except_result u e) = None
   \<and> url (except_result u e) = u"
  by (simp add: except_result_def error_marked_def url_error_def cross_mark_def)

lemma resume_task_raises:
  assumes "after_fetch st b u = Raises e"
  shows "resume_task st b u = (st, except_result u e)"
  using assms by (simp add: resume_task_def)

lemma after_fetch_raises_iff:
  "after_fetch st b u = Raises e \<longleftrightarrow>
     fetch_webpage b = Raises e
     \<or> (\<exists>h. fetch_webpage b = Returns h \<and> \<not> falsy h
          \<and> (extract_content b = Raises e
              \<or> (\<exists>cd. extract_content b = Returns (Some cd)
                   \<and> (specific_content b = Raises e
                       \<or> (\<exists>sp. specific_content b = Returns sp
                            \<and> enable_screenshot st \<and> capture_screenshot b = Raises e)))))"
  unfolding after_fetch_def
  by (auto simp: Let_def split: outcome.splits option.splits if_splits)


lemma step_task_cache_disabled:
  assumes "\<not> enable_cache (g_plugin g)"
  shows "\<not> enable_cache (g_plugin (step_task beh g i))
         \<and> cache_manager (g_plugin (step_task beh g i)) = cache_manager (g_plugin g)"
  using assms
  by (auto simp: step_task_def Let_def update_cache_def
           split: prod.splits task.splits option.splits dest!: resume_task_cases)

lemma run_steps_cache_disabled:
  assumes "\<not> enable_cache (g_plugin g)"
  shows "cache_manager (g_plugin (run_steps beh g sched)) = cache_manager (g_plugin g)"
proof -
  have "\<not> enable_cache (g_plugin (run_steps beh g sched))
        \<and> cache_manager (g_plugin (run_steps beh g sched)) = cache_manager (g_plugin g)"
    by (rule run_steps_invariant
          [where P = "\<lambda>g'. \<not> enable_cache (g_plugin g')
                          \<and> cache_manager (g_plugin g') = cache_manager (g_plugin g)"])
       (simp_all add: assms step_task_cache_disabled)
  then show ?thesis by simp
qed

lemma try_block_cache_disabled:
  assumes "\<not> enable_cache st"
  shows "cache_manager (final (try_block st env us)) = cache_manager st"
  using assms
  by (simp add: try_block_def gather_def run_steps_cache_disabled gather_init_def Let_def
           split: outcome.splits option.splits)

lemma batch_cache_disabled:
  assumes "\<not> enable_cache st"
  shows "cache_manager (final (batch_process_urls st env urls)) = cache_manager st"
proof (cases "filtered_urls st urls = []")
  case True
  then show ?thesis by (simp add: batch_empty admitted_state_simps)
next
  case False
  have "\<not> enable_cache (admitted_state st urls)" using assms by (simp add: admitted_state_simps)
  from try_block_cache_disabled [OF this] show ?thesis
    by (simp add: batch_nonempty [OF False] Let_def admitted_state_simps)
qed

lemma batch_fetches_all_when_disabled:
  assumes "\<not> enable_cache st" and "acquire env = Returns ()" and "cancel_after env = None"
  shows "set (fetched (batch_process_urls st env urls)) = set (filtered_urls st urls)"
    and "distinct (fetched (batch_process_urls st env urls))"
proof -
  let ?us = "filtered_urls st urls"
  let ?st = "admitted_state st urls"
  let ?g = "gather (behaviour_of env) (schedule env) ?st ?us"
  have d: "distinct ?us" by (rule filtered_urls_distinct)
  have wf: "enable_cache ?st \<longrightarrow> cache_wf (cache_manager ?st)"
    using assms(1) by (simp add: admitted_state_simps)
  have room: "enable_cache ?st \<longrightarrow>
      int (length (entries (cache_manager ?st)))
        + int (length (filter (misses ?st (behaviour_of env)) ?us)) \<le> max_size (cache_manager ?st)"
    using assms(1) by (simp add: admitted_state_simps)
  have "?us ! j \<in> set (g_fetched ?g)" if "j < length ?us" for j
    using gather_lookup [OF d wf room that, where sched = "schedule env"] assms(1)
    by (simp add: check_cache_def admitted_state_simps split: if_splits)
  then have "set ?us \<subseteq> set (g_fetched ?g)" by (auto simp: in_set_conv_nth)
  with gather_fetched [OF d wf, of "behaviour_of env" "schedule env"]
  show "set (fetched (batch_process_urls st env urls)) = set ?us"
    and "distinct (fetched (batch_process_urls st env urls))"
    by (auto simp: batch_fetched [OF assms(2,3)])
qed

lemma init_cache_wf: "cache_wf (cache_manager (WebAnalyzerPlugin_init cfg))"
  by (simp add: WebAnalyzerPlugin_init_def CacheManager_init_def cache_wf_def Let_def)

lemma try_block_cache_wf:
  assumes "distinct us" and "cache_wf (cache_manager st)"
  shows "cache_wf (cache_manager (final (try_block st env us)))"
proof (cases "enable_cache st")
  case True
  have "gather_inv st (behaviour_of env) (run_steps (behaviour_of env) (gather_init st us) sched)"
    for sched
    using run_steps_inv [OF assms(1), of st] assms(2) by simp
  then have "cache_wf (cache_manager (g_plugin (run_steps (behaviour_of env) (gather_init st us) sched)))"
    for sched
    using True by (simp add: gather_inv_def)
  then show ?thesis using assms(2)
    by (simp add: try_block_def gather_def Let_def split: outcome.splits option.splits)
next
  case False
  then show ?thesis using assms(2) by (simp add: try_block_cache_disabled)
qed

lemma batch_preserves_cache_wf:
  assumes "cache_wf (cache_manager st)"
  shows "cache_wf (cache_manager (final (batch_process_urls st env urls)))"
proof (cases "filtered_urls st urls = []")
  case True
  then show ?thesis using assms by (simp add: batch_empty admitted_state_simps)
next
  case False
  have "cache_wf (cache_manager (admitted_state st urls))"
    using assms by (simp add: admitted_state_simps)
  from try_block_cache_wf [OF filtered_urls_distinct this, where env = env]
  show ?thesis by (simp add: batch_nonempty [OF False] Let_def)
qed

section \<open>Auxiliary facts about the cache\<close>

lemma overwrite_keeps_keys:
  "fst \<circ> (\<lambda>(k', e'). if k' = k then (k', e) else (k', e')) = fst"
  by (auto simp: fun_eq_iff)

lemma cache_set_bounded:
  assumes "0 < max_size c" and "int (length (entries c)) \<le> max_size c"
  shows "0 < max_size (cache_set c k v now)
         \<and> int (length (entries (cache_set c k v now))) \<le> max_size (cache_set c k v now)"
proof -
  have "entries c \<noteq> []" if "int (length (entries c)) = max_size c"
    using that assms(1) by auto
  then show ?thesis using assms by (auto simp: cache_set_def)
qed

lemma apply_op_bounded:
  assumes "0 < max_size c" and "int (length (entries c)) \<le> max_size c"
  shows "0 < max_size (apply_op c x)
         \<and> int (length (entries (apply_op c x))) \<le> max_size (apply_op c x)"
proof (cases x)
  case (Set k v now)
  then show ?thesis using cache_set_bounded [OF assms] by simp
next
  case Clear
  then show ?thesis using assms by (simp add: cache_clear_def)
qed

lemma apply_op_max_size: "max_size (apply_op c x) = max_size c"
  by (cases x) (simp_all add: cache_set_def cache_clear_def)

lemma apply_ops_max_size: "max_size (apply_ops c ops) = max_size c"
  unfolding apply_ops_def by (induction ops arbitrary: c) (simp_all add: apply_op_max_size)

lemma apply_ops_bounded:
  assumes "0 < max_size c" and "int (length (entries c)) \<le> max_size c"
  shows "int (length (entries (apply_ops c ops))) \<le> max_size c"
proof -
  have "0 < max_size (apply_ops c ops)
        \<and> int (length (entries (apply_ops c ops))) \<le> max_size (apply_ops c ops)"
    using assms unfolding apply_ops_def
  proof (induction ops arbitrary: c)
    case Nil
    then show ?case by simp
  next
    case (Cons x ops)
    from apply_op_bounded [OF Cons.prems, of x] Cons.IH [of "apply_op c x"]
    show ?case by simp
  qed
  then show ?thesis by (simp add: apply_ops_max_size)
qed

lemma cache_set_keys_distinct:
  assumes "distinct (map fst (entries c))"
  shows "distinct (map fst (entries (cache_set c k v now)))"
proof -
  have t: "distinct (map fst (tl (entries c)))" "set (map fst (tl (entries c))) \<subseteq> set (map fst (entries c))"
    using assms by (cases "entries c"; auto)+
  show ?thesis using assms t by (auto simp: cache_set_def overwrite_keeps_keys)
qed

lemma apply_ops_keys_distinct:
  assumes "distinct (map fst (entries c))"
  shows "distinct (map fst (entries (apply_ops c ops)))"
  using assms unfolding apply_ops_def
proof (induction ops arbitrary: c)
  case Nil
  then show ?case by simp
next
  case (Cons x ops)
  have "distinct (map fst (entries (apply_op c x)))"
    using Cons.prems cache_set_keys_distinct by (cases x) (simp_all add: cache_clear_def)
  from Cons.IH [OF this] show ?case by simp
qed

lemma cache_set_overwrite:
  assumes "k \<in> set (map fst (entries c))"
  shows "map fst (entries (cache_set c k v now)) = map fst (entries c)"
    and "map_of (entries (cache_set c k v now)) k = Some (fresh_entry c v now)"
proof -
  have o: "k \<in> set (map fst es) \<Longrightarrow>
      map_of (map (\<lambda>(k', e'). if k' = k then (k', e) else (k', e')) es) k = Some e"
    for es :: "(string \<times> CacheEntry) list" and e
    by (induction es) auto
  show "map fst (entries (cache_set c k v now)) = map fst (entries c)"
    using assms by (simp add: cache_set_def overwrite_keeps_keys)
  show "map_of (entries (cache_set c k v now)) k = Some (fresh_entry c v now)"
    using assms o [of "entries c" "fresh_entry c v now"] by (simp add: cache_set_def)
qed

section \<open>Unfolding the concrete scenarios\<close>

lemmas scenario_defs = fresh_plugin_def WebAnalyzerPlugin_init_def CacheManager_init_def
  dict_get_def demo_config_def llm_down_env_def quiet_env_def llm_down_def good_page_def
  busy_plugin_def fetch_fails_def mixed_env_def cached_b_def warm_plugin_def
  uncached_plugin_def

lemmas batch_defs = batch_process_urls_def try_block_def gather_def run_steps_def
  gather_init_def step_task_def check_cache_def cache_get_def resume_task_def after_fetch_def
  falsy_def analyze_with_llm_def translate_content_def update_cache_def cache_set_def
  fresh_entry_def gather_results_def except_result_def Let_def


section \<open>The in-flight set is restored by every batch\<close>

text \<open>
  Claim C1. Whatever the batch and however it ends (the environment covers a failing
  acquisition of the client, per-URL failures, a cancellation while waiting for the tasks,
  a failing exit of the client context and a failing send), the in-flight set after the
  batch is the one before it, and none of the keys admitted by the batch is left in it.
\<close>

theorem in_flight_keys_released:
  "processing_urls (final (batch_process_urls st env urls)) = processing_urls st
   \<and> set (filtered_urls st urls) \<inter> processing_urls (final (batch_process_urls st env urls)) = {}"
proof -
  have "set (filtered_urls st urls) = set urls - processing_urls st"
    by (simp add: filtered_urls_def admit_loop_set)
  then show ?thesis by (auto simp: batch_processing_urls)
qed

section \<open>Failed pipelines and the cache\<close>

text \<open>
  The failures that end the pipeline of a URL leave the cache as it was: a falsy
  fetch, a falsy extraction, and every exception that reaches the handler.
\<close>

lemma boundary_failure_not_cached:
  assumes "after_fetch st b u = Raises e"
  shows "fst (resume_task st b u) = st"
  using assms by (simp add: resume_task_def)

lemma fetch_failure_not_cached:
  assumes "fetch_webpage b = Returns h" and "falsy h"
  shows "resume_task st b u = (st, \<lparr>url = u, result = cannot_fetch @ u, screenshot = None\<rparr>)"
  using assms by (simp add: resume_task_def after_fetch_def)

lemma parse_failure_not_cached:
  assumes "fetch_webpage b = Returns h" and "\<not> falsy h" and "extract_content b = Returns None"
  shows "resume_task st b u = (st, \<lparr>url = u, result = cannot_parse @ u, screenshot = None\<rparr>)"
  using assms by (simp add: resume_task_def after_fetch_def)

text \<open>
  Claim C2. The claim says that the error-shaped result of a failed pipeline (fetch
  error, parse error or summarizer error) is never written to the cache. For the
  summarizer the code does otherwise. With the cache enabled and a page that is fetched
  and parsed but whose language-model call raises, \<^verbatim>\<open>analyze_with_llm\<close> returns the
  error text, the pipeline goes on to the screenshot and the write-through, and the
  error-shaped result is stored: a lookup one minute later is a hit, and a second batch
  for the same URL returns the stored error without fetching the page again.
\<close>

theorem summarizer_error_is_cached:
  "llm_body (behaviour_of llm_down_env ''http://a'')
      \<lparr>title = ''T'', content = ''C'', content_url = ''U''\<rparr> = Raises ''timeout''
   \<and> enable_cache fresh_plugin
   \<and> check_cache fresh_plugin ''http://a'' 0 = None
   \<and> check_cache (final (batch_process_urls fresh_plugin llm_down_env [''http://a''])) ''http://a'' 1
       = Some \<lparr>url = ''http://a'', result = llm_error @ ''timeout'', screenshot = Some ''PNG''\<rparr>
   \<and> fetched (batch_process_urls (final (batch_process_urls fresh_plugin llm_down_env [''http://a'']))
        (quiet_env\<lparr>behaviour_of := (\<lambda>u. good_page\<lparr>check_time := 1\<rparr>)\<rparr>) [''http://a'']) = []
   \<and> analysis_results
        (batch_process_urls (final (batch_process_urls fresh_plugin llm_down_env [''http://a'']))
        (quiet_env\<lparr>behaviour_of := (\<lambda>u. good_page\<lparr>check_time := 1\<rparr>)\<rparr>) [''http://a''])
       = [\<lparr>url = ''http://a'', result = llm_error @ ''timeout'', screenshot = Some ''PNG''\<rparr>]"
  by (simp add: scenario_defs batch_defs)

section \<open>A cached URL inside a batch\<close>




section \<open>One result for every admitted URL\<close>

text \<open>
  Claim C4. In every batch that acquires its client and is not cancelled, each admitted
  URL yields exactly one result, in admission order. An exception raised by a step of
  the pipeline of a URL is caught by the handler of that URL and becomes a result whose
  text starts with the error marker and whose screenshot is absent. The result of every
  URL whose pipeline ran is the result of its own pipeline, so a failure of one URL
  leaves the results of the others as they are, and the batch completes normally.
\<close>

theorem url_failures_become_results:
  assumes "cache_wf (cache_manager st)"
      and "acquire env = Returns ()" and "cancel_after env = None"
      and "release_client env = Returns ()" and "send env = Returns ()"
  shows "length (analysis_results (batch_process_urls st env urls)) = length (filtered_urls st urls)
     \<and> map url (analysis_results (batch_process_urls st env urls)) = filtered_urls st urls
     \<and> status (batch_process_urls st env urls) = Completed
     \<and> (\<forall>i e. i < length (filtered_urls st urls)
            \<and> filtered_urls st urls ! i \<in> set (fetched (batch_process_urls st env urls))
            \<and> after_fetch st (behaviour_of env (filtered_urls st urls ! i))
                 (filtered_urls st urls ! i) = Raises e
          \<longrightarrow> analysis_results (batch_process_urls st env urls) ! i
                 = except_result (filtered_urls st urls ! i) e
              \<and> error_marked (result (analysis_results (batch_process_urls st env urls) ! i))
              \<and> screenshot (analysis_results (batch_process_urls st env urls) ! i) = None)
     \<and> (\<forall>i. i < length (filtered_urls st urls)
            \<and> filtered_urls st urls ! i \<in> set (fetched (batch_process_urls st env urls))
          \<longrightarrow> analysis_results (batch_process_urls st env urls) ! i
                 = snd (resume_task st (behaviour_of env (filtered_urls st urls ! i))
                          (filtered_urls st urls ! i)))"
proof -
  let ?out = "batch_process_urls st env urls"
  have urls: "map url (analysis_results ?out) = filtered_urls st urls"
    by (rule batch_results_urls [OF assms(1-4)])
  have len: "length (analysis_results ?out) = length (filtered_urls st urls)"
    using arg_cong [OF urls, of length] by simp
  have st: "status ?out = Completed" by (rule batch_status [OF assms(2-5)])
  have own: "\<forall>i. i < length (filtered_urls st urls)
            \<and> filtered_urls st urls ! i \<in> set (fetched ?out)
          \<longrightarrow> analysis_results ?out ! i
                 = snd (resume_task st (behaviour_of env (filtered_urls st urls ! i))
                          (filtered_urls st urls ! i))"
    using batch_results_pipeline [OF assms(1-4)] by blast
  have "analysis_results ?out ! i = except_result (filtered_urls st urls ! i) e"
    if "i < length (filtered_urls st urls)"
       "filtered_urls st urls ! i \<in> set (fetched ?out)"
       "after_fetch st (behaviour_of env (filtered_urls st urls ! i)) (filtered_urls st urls ! i) = Raises e"
    for i e
    using batch_results_pipeline [OF assms(1-4) that(1,2)] resume_task_raises [OF that(3)]
    by simp
  then have boundary: "\<forall>i e. i < length (filtered_urls st urls)
            \<and> filtered_urls st urls ! i \<in> set (fetched ?out)
            \<and> after_fetch st (behaviour_of env (filtered_urls st urls ! i))
                 (filtered_urls st urls ! i) = Raises e
          \<longrightarrow> analysis_results ?out ! i = except_result (filtered_urls st urls ! i) e
              \<and> error_marked (result (analysis_results ?out ! i))
              \<and> screenshot (analysis_results ?out ! i) = None"
    by (simp add: except_result_shape)
  show ?thesis
    using urls len st boundary own by blast
qed

theorem url_failures_become_results_witness:
  "cache_wf (cache_manager fresh_plugin) \<and> acquire mixed_env = Returns ()
   \<and> cancel_after mixed_env = None \<and> release_client mixed_env = Returns ()
   \<and> send mixed_env = Returns ()
   \<and> after_fetch fresh_plugin (behaviour_of mixed_env ''http://a'') ''http://a''
        = Raises ''connection refused''
   \<and> fetched (batch_process_urls fresh_plugin mixed_env [''http://a'', ''http://b''])
        = [''http://b'', ''http://a'']
   \<and> analysis_results (batch_process_urls fresh_plugin mixed_env [''http://a'', ''http://b'']) ! 0
        = except_result ''http://a'' ''connection refused''
   \<and> length (analysis_results (batch_process_urls fresh_plugin mixed_env
        [''http://a'', ''http://b''])) = 2
   \<and> status (batch_process_urls fresh_plugin mixed_env [''http://a'', ''http://b'']) = Completed"
proof -
  have h: "cache_wf (cache_manager fresh_plugin)" "acquire mixed_env = Returns ()"
    "cancel_after mixed_env = None" "release_client mixed_env = Returns ()"
    "send mixed_env = Returns ()"
    by (simp_all add: scenario_defs cache_wf_def)
  have f: "filtered_urls fresh_plugin [''http://a'', ''http://b''] = [''http://a'', ''http://b'']"
    by (simp add: filtered_urls_def scenario_defs)
  have r: "after_fetch fresh_plugin (behaviour_of mixed_env ''http://a'') ''http://a''
        = Raises ''connection refused''"
    by (simp add: scenario_defs after_fetch_def)
  have o: "fetched (batch_process_urls fresh_plugin mixed_env [''http://a'', ''http://b''])
        = [''http://b'', ''http://a'']"
    by (simp add: scenario_defs batch_defs)
  from url_failures_become_results [OF h, of "[''http://a'', ''http://b'']"]
  have "length (analysis_results (batch_process_urls fresh_plugin mixed_env
          [''http://a'', ''http://b''])) = 2
      \<and> status (batch_process_urls fresh_plugin mixed_env [''http://a'', ''http://b'']) = Completed
      \<and> analysis_results (batch_process_urls fresh_plugin mixed_env [''http://a'', ''http://b'']) ! 0
          = except_result ''http://a'' ''connection refused''"
    using r o by (simp add: f)
  then show ?thesis using h r o by simp
qed

section \<open>Admission into the in-flight set\<close>

text \<open>
  Claim C5. The admitted URLs are the first occurrences, in input order, of the
  submitted URLs that are not in flight: a URL submitted twice is admitted once, a URL
  in flight is left out. Each admitted URL gets one result and its page is fetched at
  most once; a URL that is left out gets no result, and the batch completes normally.
\<close>

theorem admission_has_set_semantics:
  "filtered_urls st urls = rev (remdups (rev (filter (\<lambda>u. u \<notin> processing_urls st) urls)))
   \<and> distinct (filtered_urls st urls)
   \<and> set (filtered_urls st urls) = set urls - processing_urls st
   \<and> (cache_wf (cache_manager st) \<and> acquire env = Returns () \<and> cancel_after env = None
        \<and> release_client env = Returns () \<and> send env = Returns ()
      \<longrightarrow> map url (analysis_results (batch_process_urls st env urls)) = filtered_urls st urls
          \<and> distinct (fetched (batch_process_urls st env urls))
          \<and> set (fetched (batch_process_urls st env urls)) \<subseteq> set urls - processing_urls st
          \<and> status (batch_process_urls st env urls) = Completed)"
  using filtered_urls_first_occurrences [of st urls] filtered_urls_distinct [of st urls]
    filtered_urls_set [of st urls] batch_results_urls [of st env urls]
    batch_fetched_distinct [of st env urls] batch_status [of env st urls]
  by simp

theorem admission_has_set_semantics_witness:
  "cache_wf (cache_manager busy_plugin) \<and> acquire quiet_env = Returns ()
   \<and> cancel_after quiet_env = None \<and> release_client quiet_env = Returns ()
   \<and> send quiet_env = Returns ()
   \<and> processing_urls busy_plugin = {''http://a''}
   \<and> filtered_urls busy_plugin [''http://b'', ''http://a'', ''http://b'', ''http://c'']
        = [''http://b'', ''http://c'']
   \<and> map url (analysis_results (batch_process_urls busy_plugin quiet_env
        [''http://b'', ''http://a'', ''http://b'', ''http://c''])) = [''http://b'', ''http://c'']
   \<and> status (batch_process_urls busy_plugin quiet_env
        [''http://b'', ''http://a'', ''http://b'', ''http://c'']) = Completed"
proof -
  have h: "cache_wf (cache_manager busy_plugin) \<and> acquire quiet_env = Returns ()
     \<and> cancel_after quiet_env = None \<and> release_client quiet_env = Returns ()
     \<and> send quiet_env = Returns ()"
    by (simp add: scenario_defs cache_wf_def)
  have p: "processing_urls busy_plugin = {''http://a''}" by (simp add: scenario_defs)
  show ?thesis
    using h admission_has_set_semantics [of busy_plugin
        "[''http://b'', ''http://a'', ''http://b'', ''http://c'']" quiet_env]
    by (simp add: p)
qed

section \<open>The order of the results\<close>

text \<open>
  Claim C6. For every schedule of the tasks, the results are handed over in the order of
  the admitted URLs, and the result at the position of a URL whose pipeline ran is the
  result of the pipeline of that URL.
\<close>

theorem results_follow_admission_order:
  assumes "cache_wf (cache_manager st)"
      and "acquire env = Returns ()" and "cancel_after env = None"
      and "release_client env = Returns ()"
  shows "map url (analysis_results (batch_process_urls st (env\<lparr>schedule := sched\<rparr>) urls))
           = filtered_urls st urls
     \<and> (\<forall>i. i < length (filtered_urls st urls)
            \<and> filtered_urls st urls ! i
                 \<in> set (fetched (batch_process_urls st (env\<lparr>schedule := sched\<rparr>) urls))
          \<longrightarrow> analysis_results (batch_process_urls st (env\<lparr>schedule := sched\<rparr>) urls) ! i
                = snd (resume_task st (behaviour_of env (filtered_urls st urls ! i))
                         (filtered_urls st urls ! i)))"
proof -
  let ?env = "env\<lparr>schedule := sched\<rparr>"
  have e: "acquire ?env = Returns ()" "cancel_after ?env = None" "release_client ?env = Returns ()"
    using assms by simp_all
  show ?thesis
    using batch_results_urls [OF assms(1) e] batch_results_pipeline [OF assms(1) e]
    by simp
qed

theorem results_follow_admission_order_witness:
  "cache_wf (cache_manager fresh_plugin)
   \<and> acquire quiet_env = Returns () \<and> cancel_after quiet_env = None
   \<and> release_client quiet_env = Returns ()
   \<and> fetched (batch_process_urls fresh_plugin (quiet_env\<lparr>schedule := [1, 1, 0, 0]\<rparr>)
        [''http://a'', ''http://b'']) = [''http://b'', ''http://a'']
   \<and> map url (analysis_results (batch_process_urls fresh_plugin
        (quiet_env\<lparr>schedule := [1, 1, 0, 0]\<rparr>) [''http://a'', ''http://b'']))
       = [''http://a'', ''http://b'']"
proof -
  have h: "cache_wf (cache_manager fresh_plugin)" "acquire quiet_env = Returns ()"
    "cancel_after quiet_env = None" "release_client quiet_env = Returns ()"
    by (simp_all add: scenario_defs cache_wf_def)
  have f: "filtered_urls fresh_plugin [''http://a'', ''http://b''] = [''http://a'', ''http://b'']"
    by (simp add: filtered_urls_def scenario_defs)
  have o: "fetched (batch_process_urls fresh_plugin (quiet_env\<lparr>schedule := [1, 1, 0, 0]\<rparr>)
        [''http://a'', ''http://b'']) = [''http://b'', ''http://a'']"
    by (simp add: scenario_defs batch_defs)
  show ?thesis
    using h o results_follow_admission_order [OF h, of "[1, 1, 0, 0]" "[''http://a'', ''http://b'']"]
    by (simp add: f)
qed

section \<open>A batch whose URLs are all in flight\<close>

text \<open>
  Claim C7. If every URL of the submitted batch is already in flight, the batch processor
  returns at once: no result, no client context entered, no page fetched, and the plugin
  state untouched.
\<close>

theorem all_in_flight_returns_immediately:
  assumes "set urls \<subseteq> processing_urls st"
  shows "batch_process_urls st env urls =
           \<lparr>final = st, analysis_results = [], fetched = [], clients_acquired = 0,
            status = Completed\<rparr>"
proof -
  have "set (filtered_urls st urls) = {}"
    using assms by (simp add: filtered_urls_def admit_loop_set)
  then have f: "filtered_urls st urls = []" by simp
  have p: "processing_urls st \<union> set urls = processing_urls st" using assms by auto
  show ?thesis
    by (simp add: batch_process_urls_def filtered_urls_admit f p)
qed

theorem all_in_flight_returns_immediately_witness:
  "set [''http://a'', ''http://a''] \<subseteq> processing_urls busy_plugin
   \<and> batch_process_urls busy_plugin quiet_env [''http://a'', ''http://a''] =
       \<lparr>final = busy_plugin, analysis_results = [], fetched = [], clients_acquired = 0,
        status = Completed\<rparr>"
proof -
  have h: "set [''http://a'', ''http://a''] \<subseteq> processing_urls busy_plugin"
    by (simp add: busy_plugin_def)
  show ?thesis using h all_in_flight_returns_immediately [OF h, of quiet_env] by simp
qed

section \<open>The bounded cache\<close>

text \<open>
  Claim C8. Starting from a cache within its positive capacity (such as the one the
  constructor creates), after every sequence of set and clear operations the number of
  entries is at most the capacity and the keys stay distinct. A set with a new key on a
  full cache removes exactly the oldest-inserted entry and appends the new one; below
  capacity it only appends. A set of an existing key keeps the keys and their order and
  replaces the entry by one created now and expiring one expiry time later.
\<close>

theorem cache_bounded_fifo:
  "(0 < max_size c \<and> int (length (entries c)) \<le> max_size c
      \<longrightarrow> int (length (entries (apply_ops c ops))) \<le> max_size c)
   \<and> (distinct (map fst (entries c)) \<longrightarrow> distinct (map fst (entries (apply_ops c ops))))
   \<and> int (length (entries (apply_ops (cache_manager (WebAnalyzerPlugin_init cfg)) ops)))
        \<le> max_size (cache_manager (WebAnalyzerPlugin_init cfg))
   \<and> (k \<notin> set (map fst (entries c)) \<and> int (length (entries c)) = max_size c
        \<and> entries c = oldest # rest
      \<longrightarrow> entries (cache_set c k v now) = rest @ [(k, fresh_entry c v now)])
   \<and> (k \<notin> set (map fst (entries c)) \<and> int (length (entries c)) \<noteq> max_size c
      \<longrightarrow> entries (cache_set c k v now) = entries c @ [(k, fresh_entry c v now)])
   \<and> (k \<in> set (map fst (entries c))
      \<longrightarrow> map fst (entries (cache_set c k v now)) = map fst (entries c)
          \<and> map_of (entries (cache_set c k v now)) k = Some (fresh_entry c v now)
          \<and> created_at (fresh_entry c v now) = now
          \<and> expires_at (fresh_entry c v now) = now + expire_time c)"
proof -
  have init: "0 < max_size (cache_manager (WebAnalyzerPlugin_init cfg))
      \<and> int (length (entries (cache_manager (WebAnalyzerPlugin_init cfg))))
          \<le> max_size (cache_manager (WebAnalyzerPlugin_init cfg))"
    by (simp add: WebAnalyzerPlugin_init_def CacheManager_init_def Let_def less_max_iff_disj)
  have a: "int (length (entries (apply_ops (cache_manager (WebAnalyzerPlugin_init cfg)) ops)))
        \<le> max_size (cache_manager (WebAnalyzerPlugin_init cfg))"
    using init apply_ops_bounded by blast
  have b: "k \<notin> set (map fst (entries c)) \<and> int (length (entries c)) = max_size c
        \<and> entries c = oldest # rest
      \<longrightarrow> entries (cache_set c k v now) = rest @ [(k, fresh_entry c v now)]"
    by (auto simp: cache_set_def)
  have d: "k \<notin> set (map fst (entries c)) \<and> int (length (entries c)) \<noteq> max_size c
      \<longrightarrow> entries (cache_set c k v now) = entries c @ [(k, fresh_entry c v now)]"
    by (auto simp: cache_set_def)
  have e: "created_at (fresh_entry c v now) = now
      \<and> expires_at (fresh_entry c v now) = now + expire_time c"
    by (simp add: fresh_entry_def)
  show ?thesis
    using apply_ops_bounded [of c ops] apply_ops_keys_distinct [of c ops] a b d e
      cache_set_overwrite [of k c v now]
    by blast
qed

theorem cache_bounded_fifo_witness:
  "0 < max_size small_cache \<and> int (length (entries small_cache)) = max_size small_cache
   \<and> map fst (entries small_cache) = [''http://a'', ''http://b'']
   \<and> ''http://c'' \<notin> set (map fst (entries small_cache))
   \<and> map fst (entries (cache_set small_cache ''http://c'' cached_b 2)) = [''http://b'', ''http://c'']
   \<and> map fst (entries (cache_set small_cache ''http://a'' cached_b 2)) = [''http://a'', ''http://b'']
   \<and> int (length (entries (apply_ops small_cache
        [Set ''http://c'' cached_b 2, Set ''http://d'' cached_b 3, Set ''http://c'' cached_b 4])))
       \<le> 2"
proof -
  have e: "entries small_cache =
      [(''http://a'', fresh_entry small_cache cached_b 0), (''http://b'', fresh_entry small_cache cached_b 1)]"
    by (simp add: small_cache_def apply_ops_def CacheManager_init_def cache_set_def
          fresh_entry_def)
  have m: "max_size small_cache = 2"
    by (simp add: small_cache_def apply_ops_max_size CacheManager_init_def)
  have h: "0 < max_size small_cache \<and> int (length (entries small_cache)) = max_size small_cache
     \<and> map fst (entries small_cache) = [''http://a'', ''http://b'']
     \<and> ''http://c'' \<notin> set (map fst (entries small_cache))
     \<and> ''http://a'' \<in> set (map fst (entries small_cache))"
    by (simp add: e m)
  show ?thesis
    using h
      cache_bounded_fifo [of small_cache
        "[Set ''http://c'' cached_b 2, Set ''http://d'' cached_b 3, Set ''http://c'' cached_b 4]"
        demo_config "''http://c''"
        "(''http://a'', fresh_entry small_cache cached_b 0)"
        "[(''http://b'', fresh_entry small_cache cached_b 1)]" cached_b 2]
      cache_bounded_fifo [of small_cache "[]" demo_config "''http://a''"
        "(''http://a'', fresh_entry small_cache cached_b 0)"
        "[(''http://b'', fresh_entry small_cache cached_b 1)]" cached_b 2]
    by (simp add: e m)
qed

section \<open>The limits of the cache set up by the constructor\<close>

text \<open>
  Claim C9. For every configuration, the cache manager created by the constructor has a
  capacity between 10 and 1000 and an expiry time between 5 and 10080 minutes, the values
  of the plugin's own attributes; a supplied integer outside the range is replaced by the
  nearest bound, one inside is kept.
\<close>

theorem cache_limits_clamped:
  "10 \<le> max_size (cache_manager (WebAnalyzerPlugin_init cfg))
   \<and> max_size (cache_manager (WebAnalyzerPlugin_init cfg)) \<le> 1000
   \<and> 5 \<le> expire_time (cache_manager (WebAnalyzerPlugin_init cfg))
   \<and> expire_time (cache_manager (WebAnalyzerPlugin_init cfg)) \<le> 10080
   \<and> max_cache_size (WebAnalyzerPlugin_init cfg)
        = max_size (cache_manager (WebAnalyzerPlugin_init cfg))
   \<and> cache_expire_time (WebAnalyzerPlugin_init cfg)
        = expire_time (cache_manager (WebAnalyzerPlugin_init cfg))
   \<and> (\<forall>cs v. cfg_cache_settings cfg = Some cs \<and> cfg_max_cache_size cs = Some v \<longrightarrow>
         max_size (cache_manager (WebAnalyzerPlugin_init cfg)) =
           (if v < 10 then 10 else if 1000 < v then 1000 else v))
   \<and> (\<forall>cs v. cfg_cache_settings cfg = Some cs \<and> cfg_cache_expire_time cs = Some v \<longrightarrow>
         expire_time (cache_manager (WebAnalyzerPlugin_init cfg)) =
           (if v < 5 then 5 else if 10080 < v then 10080 else v))"
  by (auto simp: WebAnalyzerPlugin_init_def CacheManager_init_def Let_def dict_get_def)

theorem cache_limits_clamped_witness:
  "cfg_cache_settings demo_config =
     Some \<lparr>cfg_enable_cache = Some True, cfg_cache_expire_time = Some 1,
           cfg_max_cache_size = Some 5000\<rparr>
   \<and> max_size (cache_manager (WebAnalyzerPlugin_init demo_config)) = 1000
   \<and> expire_time (cache_manager (WebAnalyzerPlugin_init demo_config)) = 5"
  using cache_limits_clamped [of demo_config] by (simp add: demo_config_def)

section \<open>The cache switched off\<close>

text \<open>
  Claim C10. When \<open>enable_cache\<close> is false, the lookup helper returns no value for
  every URL and the update helper returns the plugin state unchanged; a batch leaves the
  cache manager as it was, and the page of every admitted URL is fetched exactly once.
\<close>

theorem disabled_cache_is_bypassed:
  assumes "\<not> enable_cache st"
  shows "check_cache st u now = None
     \<and> update_cache st u r now = st
     \<and> cache_manager (final (batch_process_urls st env urls)) = cache_manager st
     \<and> (acquire env = Returns () \<and> cancel_after env = None
        \<longrightarrow> set (fetched (batch_process_urls st env urls)) = set (filtered_urls st urls)
            \<and> distinct (fetched (batch_process_urls st env urls)))"
  using assms batch_cache_disabled [OF assms, of env urls]
    batch_fetches_all_when_disabled [OF assms, of env urls]
  by (simp add: check_cache_def update_cache_def)

theorem disabled_cache_is_bypassed_witness:
  "\<not> enable_cache uncached_plugin
   \<and> cache_get (cache_manager uncached_plugin) ''http://b'' 0 = Some cached_b
   \<and> check_cache uncached_plugin ''http://b'' 0 = None
   \<and> update_cache uncached_plugin ''http://a'' cached_b 0 = uncached_plugin
   \<and> cache_manager (final (batch_process_urls uncached_plugin quiet_env [''http://a'', ''http://b'']))
        = cache_manager uncached_plugin
   \<and> set (fetched (batch_process_urls uncached_plugin quiet_env [''http://a'', ''http://b'']))
        = {''http://a'', ''http://b''}"
proof -
  have h: "\<not> enable_cache uncached_plugin" by (simp add: scenario_defs update_cache_def)
  have c: "cache_get (cache_manager uncached_plugin) ''http://b'' 0 = Some cached_b"
    by (simp add: scenario_defs update_cache_def cache_set_def fresh_entry_def
          cache_get_def)
  have e: "acquire quiet_env = Returns () \<and> cancel_after quiet_env = None"
    by (simp add: scenario_defs)
  have f: "filtered_urls uncached_plugin [''http://a'', ''http://b''] = [''http://a'', ''http://b'']"
    by (simp add: filtered_urls_def scenario_defs update_cache_def)
  show ?thesis
    using h c e disabled_cache_is_bypassed [OF h, of "''http://b''" 0 cached_b quiet_env
        "[''http://a'', ''http://b'']"]
      disabled_cache_is_bypassed [OF h, of "''http://a''" 0 cached_b quiet_env
        "[''http://a'', ''http://b'']"]
    by (auto simp: f)
qed

end
